theory Spec2Isabelle
  imports Complex_Main "HOL-Library.Word" "HOL-Library.Log_Nat"
begin

unbundle bit_operations_syntax

section \<open>Machine types\<close>

text \<open>
  The engine is C on a 64-bit target. \<open>size_t\<close> is a 64-bit word whose arithmetic
  wraps around; \<open>uint8_t\<close> and \<open>unsigned char\<close> are 8-bit words; the glyph bytes of
  the character buffer are values of the byte type \<open>char\<close>. C \<open>int\<close> values are
  modelled by \<open>int\<close>: signed overflow is undefined in C, and the theorems below that
  depend on an \<open>int\<close> computation bound its operands so that it cannot occur.
  Integer division in C truncates towards zero (\<open>c_div\<close>), unlike \<open>div\<close> on \<open>int\<close>.
\<close>

type_synonym size_t = "64 word"
type_synonym uint8_t = "8 word"

definition c_div :: "int \<Rightarrow> int \<Rightarrow> int" where
  "c_div a b = (if (a < 0) = (b < 0) then \<bar>a\<bar> div \<bar>b\<bar> else - (\<bar>a\<bar> div \<bar>b\<bar>))"

text \<open>The conversion \<open>(size_t)i\<close> of a C \<open>int\<close>: reduction modulo \<open>2 ^ 64\<close>.\<close>

definition size_t_of_int :: "int \<Rightarrow> size_t" where
  "size_t_of_int i = word_of_int i"

section \<open>Memory arena\<close>

text \<open>
  \<open>struct Arena { void* start; size_t size; size_t used; }\<close>. The field \<open>size\<close> is
  named \<open>size_bytes\<close> here. A pointer is the address it holds; the \<open>NULL\<close> result of
  \<open>arena_alloc\<close> is \<open>None\<close>, and a pointer \<open>start + used\<close> into the block is \<open>Some\<close> of
  its address.
\<close>

record Arena =
  start :: size_t
  size_bytes :: size_t
  used :: size_t

definition arena_alloc :: "Arena \<Rightarrow> size_t \<Rightarrow> size_t option \<times> Arena" where
  "arena_alloc a sz =
     (let sz' = (sz + 15) AND NOT 15 in
      if used a + sz' > size_bytes a then (None, a)
      else (Some (start a + used a), a\<lparr>used := used a + sz'\<rparr>))"

definition arena_reset :: "Arena \<Rightarrow> Arena" where
  "arena_reset a = a\<lparr>used := 0\<rparr>"

text \<open>The next multiple of 16 at or above \<open>n\<close>, on unbounded naturals.\<close>

definition align16 :: "nat \<Rightarrow> nat" where
  "align16 n = ((n + 15) div 16) * 16"

section \<open>Row bands of the frame orchestrator\<close>

text \<open>
  \<open>engine_init\<close> fixes the worker count: the configured \<open>num_threads\<close> when positive,
  otherwise the value of \<open>sysconf(_SC_NPROCESSORS_ONLN)\<close>, replaced by 1 when that is
  not positive.
\<close>

definition init_num_threads :: "int \<Rightarrow> int \<Rightarrow> int" where
  "init_num_threads config_num_threads nprocessors_onln =
     (if config_num_threads > 0 then config_num_threads
      else if nprocessors_onln \<le> 0 then 1 else nprocessors_onln)"

text \<open>
  \<open>struct ThreadArgs\<close>, reduced to the two fields that differ between workers. The body
  of the partition loop of \<open>engine_process_frame_to_ascii\<close> for worker \<open>i\<close>:
  \<open>rows_per_thread = ascii_height / num_threads\<close>, \<open>start_row = i * rows_per_thread\<close>,
  \<open>end_row = (i == num_threads - 1) ? ascii_height : (i + 1) * rows_per_thread\<close>.
\<close>

record ThreadArgs =
  start_row :: int
  end_row :: int

definition thread_args :: "int \<Rightarrow> int \<Rightarrow> int \<Rightarrow> ThreadArgs" where
  "thread_args height nthreads i =
     (let rows_per_thread = c_div height nthreads in
      \<lparr>start_row = i * rows_per_thread,
       end_row = (if i = nthreads - 1 then height else (i + 1) * rows_per_thread)\<rparr>)"

definition worker_args :: "int \<Rightarrow> int \<Rightarrow> ThreadArgs list" where
  "worker_args height nthreads = map (thread_args height nthreads) [0..nthreads - 1]"

text \<open>The rows a worker visits: \<open>for (y = start_row; y < end_row; y++)\<close>.\<close>

definition band_rows :: "ThreadArgs \<Rightarrow> int set" where
  "band_rows a = {start_row a ..< end_row a}"

section \<open>Floating point\<close>

text \<open>
  A value of the C type \<open>float\<close> is a binary32 number. It is modelled by the real number
  it denotes, and an operation on floats by the exact operation followed by \<open>float32\<close>,
  the rounding to the nearest binary32 value with ties to the even significand:
  24 significant bits, exponents from -126 on, subnormal numbers included. Each
  operation of an expression is rounded on its own, in the order in which C groups the
  expression; a product and a sum are not fused into one operation. A literal such as
  \<open>0.299f\<close> is \<open>float32\<close> of the decimal (the literals \<open>0.0f\<close>, \<open>1.0f\<close> and \<open>255.0f\<close>
  denote themselves), and a conversion from an integer is \<open>float32\<close> of the integer.
  Conversions to integers truncate towards zero.

  Infinities and NaN are not values of the model and \<open>float32\<close> does not overflow. The
  values \<open>process_slice_worker\<close> computes from pixel bytes are far below the largest
  binary32 number; the model leaves out a configuration value that is not finite or
  whose square is not.

  The gamma table alone is kept in exact arithmetic: the C library does not specify how
  \<open>powf\<close> rounds, so \<open>powf\<close> is the real power function and the expression around it is
  not rounded.
\<close>

type_synonym float = real

definition round_half_even :: "real \<Rightarrow> int" where
  "round_half_even q =
     (let n = \<lfloor>q\<rfloor>; d = q - of_int n
      in if d < 1 / 2 then n else if 1 / 2 < d then n + 1 else if even n then n else n + 1)"

text \<open>The exponent \<open>e\<close> of a positive number \<open>a\<close>: \<open>2\<^sup>e \<le> a < 2\<^sup>e\<^sup>+\<^sup>1\<close>.\<close>

definition float_exponent :: "real \<Rightarrow> int" where
  "float_exponent a = (if 1 \<le> a then bitlen \<lfloor>a\<rfloor> - 1 else - bitlen (\<lceil>1 / a\<rceil> - 1))"

definition float32 :: "real \<Rightarrow> float" where
  "float32 x =
     (if x = 0 then 0
      else let e = max (float_exponent \<bar>x\<bar>) (- 126); ulp = 2 powi (e - 23)
           in of_int (round_half_even (x / ulp)) * ulp)"

definition float_of_int :: "int \<Rightarrow> float" where
  "float_of_int i = float32 (of_int i)"

definition fadd :: "float \<Rightarrow> float \<Rightarrow> float" where
  "fadd a b = float32 (a + b)"

definition fsub :: "float \<Rightarrow> float \<Rightarrow> float" where
  "fsub a b = float32 (a - b)"

definition fmul :: "float \<Rightarrow> float \<Rightarrow> float" where
  "fmul a b = float32 (a * b)"

definition fdiv :: "float \<Rightarrow> float \<Rightarrow> float" where
  "fdiv a b = float32 (a / b)"

definition c_int_of_float :: "float \<Rightarrow> int" where
  "c_int_of_float r = (if 0 \<le> r then \<lfloor>r\<rfloor> else \<lceil>r\<rceil>)"

definition c_uint8_of_float :: "float \<Rightarrow> uint8_t" where
  "c_uint8_of_float r = word_of_int (c_int_of_float r)"

definition powf :: "real \<Rightarrow> real \<Rightarrow> real" where
  "powf x y = x powr y"

section \<open>Configuration and processing context\<close>

text \<open>
  \<open>EngineConfig\<close> with the fields the frame transform and the renderers read
  (\<open>num_threads\<close> of the configuration is named \<open>config_num_threads\<close>), and
  \<open>struct ProcessingContext\<close> with the fields of the per-frame pipeline:
  \<open>dec_width\<close> and \<open>dec_height\<close> are \<open>dec_codec_ctx->width\<close> and
  \<open>dec_codec_ctx->height\<close>, \<open>rgb_data\<close> and \<open>rgb_linesize\<close> are
  \<open>rgb_frame->data[0]\<close> and \<open>rgb_frame->linesize[0]\<close>.
\<close>

record EngineConfig =
  output_width :: int
  edge_strength :: float
  aspect_correction :: float
  brightness_factor :: float
  saturation_factor :: float
  use_color :: int
  config_num_threads :: int

record ProcessingContext =
  dec_width :: int
  dec_height :: int
  rgb_data :: "uint8_t list"
  rgb_linesize :: int
  char_buffer :: "size_t option"
  color_buffer :: "size_t option"
  ascii_width :: int
  ascii_height :: int
  frame_arena :: Arena
  num_threads :: int
  char_lut_flat :: "char list"
  char_lut_vert :: "char list"
  char_lut_horz :: "char list"
  char_lut_diag1 :: "char list"
  char_lut_diag2 :: "char list"
  gamma_lut :: "uint8_t list"

text \<open>
  The contents of the two output arrays, indexed from \<open>ctx->char_buffer\<close> and from
  \<open>ctx->color_buffer\<close>. The arena does not clear memory, so before a frame is
  processed the contents are arbitrary.
\<close>

record Grid =
  chars :: "int \<Rightarrow> char"
  colors :: "int \<Rightarrow> uint8_t"

section \<open>Lookup tables\<close>

definition flat_ramp :: string where
  "flat_ramp = [CHR 0x60] @ ''.-'' @ [CHR 0x27] @
     '':_,^=;><+!rc*/z?sLTv)J7(|Fi{C}fI31tlu[neoZ5Yxjya]2ESwqkP6h9d4VpOGbUAKXHm8RD#$Bg0MNWQ%&@''"

definition flat_ramp_len :: int where "flat_ramp_len = 90"

text \<open>The source literal of the vertical ramp is a bar and a broken bar, which is two bytes in UTF-8.\<close>

definition vertical_ramp :: string where
  "vertical_ramp = [CHR ''|'', CHR 0xC2, CHR 0xA6]"

definition vertical_ramp_len :: int where "vertical_ramp_len = 2"

definition horizontal_ramp :: string where
  "horizontal_ramp = ''-=''"

definition horizontal_ramp_len :: int where "horizontal_ramp_len = 2"

definition diagonal1_ramp :: string where
  "diagonal1_ramp = [CHR 0x5C, CHR ''_'']"

definition diagonal1_ramp_len :: int where "diagonal1_ramp_len = 2"

definition diagonal2_ramp :: string where
  "diagonal2_ramp = ''/_''"

definition diagonal2_ramp_len :: int where "diagonal2_ramp_len = 2"

text \<open>\<open>ramp[(int)(br * (ramp_len - 1))]\<close> with \<open>br = (float)i / 255.0f\<close>.\<close>

definition ramp_entry :: "string \<Rightarrow> int \<Rightarrow> nat \<Rightarrow> char" where
  "ramp_entry ramp ramp_len i =
     (let br = fdiv (float_of_int (int i)) 255
      in ramp ! nat (c_int_of_float (fmul br (float_of_int (ramp_len - 1)))))"

text \<open>\<open>(uint8_t)(powf((float)i / 255.0f, 1.0f / 2.2f) * 255.0f)\<close>, in exact arithmetic.\<close>

definition gamma_entry :: "nat \<Rightarrow> uint8_t" where
  "gamma_entry i = c_uint8_of_float (powf (real i / 255) (1 / 2.2) * 255)"

definition init_luts :: "ProcessingContext \<Rightarrow> ProcessingContext" where
  "init_luts ctx = ctx
     \<lparr>char_lut_flat := map (ramp_entry flat_ramp flat_ramp_len) [0..<256],
      char_lut_vert := map (ramp_entry vertical_ramp vertical_ramp_len) [0..<256],
      char_lut_horz := map (ramp_entry horizontal_ramp horizontal_ramp_len) [0..<256],
      char_lut_diag1 := map (ramp_entry diagonal1_ramp diagonal1_ramp_len) [0..<256],
      char_lut_diag2 := map (ramp_entry diagonal2_ramp diagonal2_ramp_len) [0..<256],
      gamma_lut := map gamma_entry [0..<256]\<rparr>"

section \<open>Tile processor\<close>

text \<open>Nearest-neighbour mapping: \<open>(int)((float)x / ctx->ascii_width * width)\<close>.\<close>

definition source_coord :: "int \<Rightarrow> int \<Rightarrow> int \<Rightarrow> int" where
  "source_coord x ascii_extent extent =
     c_int_of_float (fmul (fdiv (float_of_int x) (float_of_int ascii_extent)) (float_of_int extent))"

text \<open>\<open>s = (s < 0) ? 0 : (s >= extent ? extent - 1 : s)\<close>, for \<open>sx\<close> with the width and for \<open>sy\<close> with the height.\<close>

definition clamp_coord :: "int \<Rightarrow> int \<Rightarrow> int" where
  "clamp_coord s extent = (if s < 0 then 0 else if s \<ge> extent then extent - 1 else s)"

definition sobel_y :: "int list list" where
  "sobel_y = [[1, 2, 1], [0, 0, 0], [-1, -2, -1]]"

definition sobel_x :: "int list list" where
  "sobel_x = [[1, 0, -1], [2, 0, -2], [1, 0, -1]]"

text \<open>
  The nine iterations of the window loops, \<open>ky\<close> outermost, each with the clamped
  coordinate \<open>(sx, sy)\<close> it reads.
\<close>

definition sobel_samples :: "ProcessingContext \<Rightarrow> int \<Rightarrow> int \<Rightarrow> (int \<times> int \<times> int \<times> int) list" where
  "sobel_samples ctx source_x source_y =
     concat (map (\<lambda>ky. map (\<lambda>kx.
       (ky, kx, clamp_coord (source_x + kx) (dec_width ctx), clamp_coord (source_y + ky) (dec_height ctx)))
       [-1, 0, 1]) [-1, 0, 1])"

text \<open>The byte offset \<open>sy * stride + sx * 3\<close> of a pixel in \<open>data\<close>.\<close>

definition pixel_offset :: "ProcessingContext \<Rightarrow> int \<Rightarrow> int \<Rightarrow> int" where
  "pixel_offset ctx sx sy = sy * rgb_linesize ctx + sx * 3"

definition pixel_byte :: "ProcessingContext \<Rightarrow> int \<Rightarrow> int \<Rightarrow> int \<Rightarrow> uint8_t" where
  "pixel_byte ctx sx sy c = rgb_data ctx ! nat (pixel_offset ctx sx sy + c)"

text \<open>\<open>luma = (0.299f * p[0] + 0.587f * p[1] + 0.114f * p[2])\<close>.\<close>

definition pixel_luma :: "ProcessingContext \<Rightarrow> int \<Rightarrow> int \<Rightarrow> float" where
  "pixel_luma ctx sx sy =
     fadd (fadd (fmul (float32 0.299) (float_of_int (uint (pixel_byte ctx sx sy 0))))
                (fmul (float32 0.587) (float_of_int (uint (pixel_byte ctx sx sy 1)))))
          (fmul (float32 0.114) (float_of_int (uint (pixel_byte ctx sx sy 2))))"

text \<open>
  One iteration of the window loops on the accumulators \<open>(gx, gy, center_luma)\<close>:
  \<open>gx += luma * sobel_x[ky + 1][kx + 1]\<close> and \<open>gy += luma * sobel_y[ky + 1][kx + 1]\<close>.
\<close>

definition sobel_accumulate ::
  "ProcessingContext \<Rightarrow> int \<times> int \<times> int \<times> int \<Rightarrow> float \<times> float \<times> float \<Rightarrow> float \<times> float \<times> float" where
  "sobel_accumulate ctx sample acc =
     (case sample of (ky, kx, sx, sy) \<Rightarrow> case acc of (gx, gy, center_luma) \<Rightarrow>
        let luma = pixel_luma ctx sx sy in
        (fadd gx (fmul luma (float_of_int (sobel_x ! nat (ky + 1) ! nat (kx + 1)))),
         fadd gy (fmul luma (float_of_int (sobel_y ! nat (ky + 1) ! nat (kx + 1)))),
         if kx = 0 \<and> ky = 0 then luma else center_luma))"

definition sobel_gradient :: "ProcessingContext \<Rightarrow> int \<Rightarrow> int \<Rightarrow> float \<times> float \<times> float" where
  "sobel_gradient ctx source_x source_y =
     fold (sobel_accumulate ctx) (sobel_samples ctx source_x source_y) (0, 0, 0)"

text \<open>\<open>const float D_THRESH = 2.41421356f\<close>.\<close>

definition D_THRESH :: float where
  "D_THRESH = float32 2.41421356"

text \<open>
  The glyph selection of \<open>process_slice_worker\<close>, from
  \<open>mag_sq = (gx * gx + gy * gy) / (255.0f * 255.0f)\<close> to \<open>selected_char\<close>.
\<close>

definition select_char :: "ProcessingContext \<Rightarrow> float \<Rightarrow> float \<Rightarrow> float \<Rightarrow> uint8_t \<Rightarrow> char" where
  "select_char ctx edge_strength_sq gx gy brightness_idx =
     (let mag_sq = fdiv (fadd (fmul gx gx) (fmul gy gy)) (fmul 255 255) in
      if mag_sq < edge_strength_sq then char_lut_flat ctx ! unat brightness_idx
      else if \<bar>gy\<bar> > fmul \<bar>gx\<bar> D_THRESH then char_lut_vert ctx ! unat brightness_idx
      else if \<bar>gx\<bar> > fmul \<bar>gy\<bar> D_THRESH then char_lut_horz ctx ! unat brightness_idx
      else if fmul gx gy > 0 then char_lut_diag1 ctx ! unat brightness_idx
      else char_lut_diag2 ctx ! unat brightness_idx)"

text \<open>The character and the colour that the loop body computes for the cell \<open>(x, y)\<close>.\<close>

definition cell_char :: "ProcessingContext \<Rightarrow> EngineConfig \<Rightarrow> int \<Rightarrow> int \<Rightarrow> char" where
  "cell_char ctx config y x =
     (let edge_strength_sq = fmul (edge_strength config) (edge_strength config);
          source_x = source_coord x (ascii_width ctx) (dec_width ctx);
          source_y = source_coord y (ascii_height ctx) (dec_height ctx)
      in case sobel_gradient ctx source_x source_y of (gx, gy, center_luma) \<Rightarrow>
        let brightness_idx = gamma_lut ctx ! unat (c_uint8_of_float center_luma)
        in select_char ctx edge_strength_sq gx gy brightness_idx)"

definition cell_color :: "ProcessingContext \<Rightarrow> int \<Rightarrow> int \<Rightarrow> int \<Rightarrow> uint8_t" where
  "cell_color ctx y x c =
     (let source_x = source_coord x (ascii_width ctx) (dec_width ctx);
          source_y = source_coord y (ascii_height ctx) (dec_height ctx)
      in pixel_byte ctx source_x source_y c)"

text \<open>The stores of the loop body for the cell \<open>(x, y)\<close>, at \<open>art_idx = y * ascii_width + x\<close>.\<close>

definition process_cell :: "ProcessingContext \<Rightarrow> EngineConfig \<Rightarrow> int \<times> int \<Rightarrow> Grid \<Rightarrow> Grid" where
  "process_cell ctx config cell grid =
     (case cell of (y, x) \<Rightarrow>
        let art_idx = y * ascii_width ctx + x in
        grid\<lparr>chars := (chars grid)(art_idx := cell_char ctx config y x),
             colors := (colors grid)
               (art_idx * 3 + 0 := cell_color ctx y x 0,
                art_idx * 3 + 1 := cell_color ctx y x 1,
                art_idx * 3 + 2 := cell_color ctx y x 2)\<rparr>)"

text \<open>
  The cells a worker visits, in the order of its loops:
  \<open>for (y = start_row; y < end_row; y++) for (x = 0; x < ascii_width; x++)\<close>.
\<close>

definition slice_cells :: "ProcessingContext \<Rightarrow> ThreadArgs \<Rightarrow> (int \<times> int) list" where
  "slice_cells ctx args =
     concat (map (\<lambda>y. map (\<lambda>x. (y, x)) [0..ascii_width ctx - 1]) [start_row args..end_row args - 1])"

definition process_slice_worker :: "ProcessingContext \<Rightarrow> EngineConfig \<Rightarrow> ThreadArgs \<Rightarrow> Grid \<Rightarrow> Grid" where
  "process_slice_worker ctx config args grid = fold (process_cell ctx config) (slice_cells ctx args) grid"

section \<open>The five-way classification, as the specification words it\<close>

text \<open>
  The specification names five ramps and selects one from the gradient \<open>(gx, gy)\<close> and
  the configured edge strength: the flat ramp when \<open>mag_sq = (gx\<^sup>2 + gy\<^sup>2) / 255\<^sup>2\<close> is
  below \<open>edge_strength\<^sup>2\<close>; otherwise, with \<open>D = 2.41421356\<close>, the vertical ramp when
  \<open>|gy| > |gx| \<times> D\<close>, else the horizontal ramp when \<open>|gx| > |gy| \<times> D\<close>, else the first
  diagonal ramp when \<open>gx \<times> gy\<close> is positive and the second when it is not.
\<close>

datatype ramp = Flat | Vertical | Horizontal | Diagonal1 | Diagonal2

definition spec_mag_sq :: "real \<Rightarrow> real \<Rightarrow> real" where
  "spec_mag_sq gx gy = (gx\<^sup>2 + gy\<^sup>2) / 255\<^sup>2"

definition spec_ramp :: "real \<Rightarrow> real \<Rightarrow> real \<Rightarrow> ramp" where
  "spec_ramp strength gx gy =
     (if spec_mag_sq gx gy < strength\<^sup>2 then Flat
      else if \<bar>gy\<bar> > \<bar>gx\<bar> * 2.41421356 then Vertical
      else if \<bar>gx\<bar> > \<bar>gy\<bar> * 2.41421356 then Horizontal
      else if gx * gy > 0 then Diagonal1
      else Diagonal2)"

text \<open>
  The same classification with its arithmetic in binary32: every product, sum and
  quotient is rounded, and \<open>D\<close> is the binary32 number nearest to \<open>2.41421356\<close>, which is
  \<open>5062973 / 2097152 = 2.414213657379150390625\<close>.
\<close>

definition binary32_mag_sq :: "float \<Rightarrow> float \<Rightarrow> float" where
  "binary32_mag_sq gx gy = fdiv (fadd (fmul gx gx) (fmul gy gy)) 65025"

definition binary32_ramp :: "float \<Rightarrow> float \<Rightarrow> float \<Rightarrow> ramp" where
  "binary32_ramp strength gx gy =
     (if binary32_mag_sq gx gy < fmul strength strength then Flat
      else if \<bar>gy\<bar> > fmul \<bar>gx\<bar> (5062973 / 2097152) then Vertical
      else if \<bar>gx\<bar> > fmul \<bar>gy\<bar> (5062973 / 2097152) then Horizontal
      else if fmul gx gy > 0 then Diagonal1
      else Diagonal2)"


section \<open>Glyph compositor: colour correction\<close>

text \<open>
  The colour of a cell in \<open>render_ascii_to_buffer\<close>: the saturation block, guarded by
  \<open>config->saturation_factor != 1.0f\<close>, and then the brightness stage. The channel
  conversions are \<open>(v > 255.0f) ? 255 : ((v < 0) ? 0 : (unsigned char)v)\<close> after
  saturation and \<open>(v > 255.0f) ? 255 : (unsigned char)v\<close> after brightness.
\<close>

definition saturation_channel :: "float \<Rightarrow> uint8_t" where
  "saturation_channel v = (if v > 255 then 255 else if v < 0 then 0 else c_uint8_of_float v)"

definition brightness_channel :: "float \<Rightarrow> uint8_t" where
  "brightness_channel v = (if v > 255 then 255 else c_uint8_of_float v)"

definition saturation_stage :: "EngineConfig \<Rightarrow> uint8_t \<times> uint8_t \<times> uint8_t \<Rightarrow> uint8_t \<times> uint8_t \<times> uint8_t" where
  "saturation_stage config rgb =
     (case rgb of (r_in, g_in, b_in) \<Rightarrow>
        if saturation_factor config \<noteq> 1 then
          let luma = fadd (fadd (fmul (float32 0.299) (float_of_int (uint r_in)))
                                (fmul (float32 0.587) (float_of_int (uint g_in))))
                          (fmul (float32 0.114) (float_of_int (uint b_in)));
              r_f = fadd luma (fmul (saturation_factor config) (fsub (float_of_int (uint r_in)) luma));
              g_f = fadd luma (fmul (saturation_factor config) (fsub (float_of_int (uint g_in)) luma));
              b_f = fadd luma (fmul (saturation_factor config) (fsub (float_of_int (uint b_in)) luma))
          in (saturation_channel r_f, saturation_channel g_f, saturation_channel b_f)
        else (r_in, g_in, b_in))"

definition brightness_stage :: "EngineConfig \<Rightarrow> uint8_t \<times> uint8_t \<times> uint8_t \<Rightarrow> uint8_t \<times> uint8_t \<times> uint8_t" where
  "brightness_stage config rgb =
     (case rgb of (r_in, g_in, b_in) \<Rightarrow>
        let r_f = fmul (float_of_int (uint r_in)) (brightness_factor config);
            g_f = fmul (float_of_int (uint g_in)) (brightness_factor config);
            b_f = fmul (float_of_int (uint b_in)) (brightness_factor config)
        in (brightness_channel r_f, brightness_channel g_f, brightness_channel b_f))"

text \<open>The colour written into the lit pixels of the glyph of the cell at \<open>art_idx\<close>.\<close>

definition glyph_color :: "EngineConfig \<Rightarrow> Grid \<Rightarrow> int \<Rightarrow> uint8_t \<times> uint8_t \<times> uint8_t" where
  "glyph_color config grid art_idx =
     brightness_stage config (saturation_stage config
       (colors grid (art_idx * 3 + 0), colors grid (art_idx * 3 + 1), colors grid (art_idx * 3 + 2)))"

section \<open>A vertical half-split frame\<close>

text \<open>
  A 4 by 4 source image whose two left columns are black and whose two right columns
  are white, in rows of 12 bytes, mapped onto a 4 by 4 grid; the lookup tables are
  those of \<open>init_luts\<close>. The configuration holds the defaults of \<open>main\<close>, whose edge
  strength is \<open>0.4f\<close>.
\<close>

definition split_data :: "uint8_t list" where
  "split_data = map (\<lambda>k. if k mod 12 < 6 then 0 else 255) [0..<48]"

definition split_ctx :: ProcessingContext where
  "split_ctx = init_luts
     \<lparr>dec_width = 4, dec_height = 4, rgb_data = split_data, rgb_linesize = 12,
      char_buffer = None, color_buffer = None, ascii_width = 4, ascii_height = 4,
      frame_arena = \<lparr>start = 4096, size_bytes = 67108864, used = 0\<rparr>,
      num_threads = 2,
      char_lut_flat = [], char_lut_vert = [], char_lut_horz = [],
      char_lut_diag1 = [], char_lut_diag2 = [], gamma_lut = []\<rparr>"

definition default_config :: EngineConfig where
  "default_config =
     \<lparr>output_width = 120, edge_strength = float32 0.4, aspect_correction = 0.5,
      brightness_factor = 1, saturation_factor = 1, use_color = 1, config_num_threads = 0\<rparr>"

text \<open>
  \<open>engine_update_output_dims\<close> stores the new dimensions as they are given (the context
  is not null here). The half-split context after
  \<open>engine_update_output_dims(ctx, 4, 0)\<close>, and buffer memory that holds zeros.
\<close>

definition engine_update_output_dims :: "ProcessingContext \<Rightarrow> int \<Rightarrow> int \<Rightarrow> ProcessingContext" where
  "engine_update_output_dims ctx new_ascii_width new_ascii_height =
     ctx\<lparr>ascii_width := new_ascii_width, ascii_height := new_ascii_height\<rparr>"

definition zero_height_ctx :: ProcessingContext where
  "zero_height_ctx = engine_update_output_dims split_ctx 4 0"

definition blank_grid :: Grid where
  "blank_grid = \<lparr>chars = \<lambda>i. CHR 0x00, colors = \<lambda>i. 0\<rparr>"

section \<open>A frame whose gradient lies next to the boundary of the vertical sector\<close>



section \<open>Vertical half-split frames\<close>

text \<open>
  Any vertical half-split frame: the columns left of \<open>b\<close> are black and the others white.
  A window straddles the boundary when its left column is black and its right column
  is white.
\<close>

definition half_split :: "ProcessingContext \<Rightarrow> int \<Rightarrow> bool" where
  "half_split ctx b =
     (0 < dec_width ctx \<and> 0 < dec_height ctx \<and>
      (\<forall>sx sy c. 0 \<le> sx \<and> sx < dec_width ctx \<and> 0 \<le> sy \<and> sy < dec_height ctx \<and> 0 \<le> c \<and> c < 3
         \<longrightarrow> pixel_byte ctx sx sy c = (if sx < b then 0 else 255)))"

definition straddles :: "ProcessingContext \<Rightarrow> int \<Rightarrow> int \<Rightarrow> bool" where
  "straddles ctx b source_x =
     (clamp_coord (source_x - 1) (dec_width ctx) < b \<and> b \<le> clamp_coord (source_x + 1) (dec_width ctx))"

section \<open>Frame orchestrator\<close>

text \<open>
  The head of \<open>engine_process_frame_to_ascii\<close>: the arena is reset and the character
  and colour buffers are allocated from it, \<open>char_buffer_size\<close> being
  \<open>(size_t)(ctx->ascii_width) * ctx->ascii_height\<close>.
\<close>

definition alloc_frame_buffers :: "ProcessingContext \<Rightarrow> ProcessingContext" where
  "alloc_frame_buffers ctx =
     (let a0 = arena_reset (frame_arena ctx);
          char_buffer_size = size_t_of_int (ascii_width ctx) * size_t_of_int (ascii_height ctx)
      in case arena_alloc a0 (char_buffer_size * 1) of (cb, a1) \<Rightarrow>
         case arena_alloc a1 (char_buffer_size * 3 * 1) of (colb, a2) \<Rightarrow>
           ctx\<lparr>frame_arena := a2, char_buffer := cb, color_buffer := colb\<rparr>)"

text \<open>
  The workers run as threads between \<open>pthread_create\<close> and \<open>pthread_join\<close>. A schedule
  is a list of worker indices: each entry lets that worker run the next iteration of
  its loops (an entry for a worker that has finished, or for no worker, changes
  nothing). \<open>pthread_join\<close> returns when the worker has finished, so when the schedule
  is used up every worker runs the iterations it has left.
\<close>

fun run_workers :: "('c \<Rightarrow> 's \<Rightarrow> 's) \<Rightarrow> nat list \<Rightarrow> 'c list list \<Rightarrow> 's \<Rightarrow> 's" where
  "run_workers f [] pending s = fold f (concat pending) s"
| "run_workers f (i # schedule) pending s =
     (if i < length pending then
        (case pending ! i of
           [] \<Rightarrow> run_workers f schedule pending s
         | c # cs \<Rightarrow> run_workers f schedule (pending[i := cs]) (f c s))
      else run_workers f schedule pending s)"

text \<open>
  The outcome of processing a frame: either the message
  \<open>Arena allocation failed for frame buffers\<close> and an early return, or the arguments of
  the workers that were created and joined, with the contents of the two buffers
  after the last join.
\<close>

datatype frame_result =
    Allocation_failed ProcessingContext
  | Frame_done ProcessingContext "ThreadArgs list" Grid

text \<open>
  \<open>sws_scale\<close> of libswscale fills \<open>rgb_frame\<close> from the decoded frame; it is a parameter
  here. \<open>grid\<close> is what the memory of the two buffers holds when the call starts.
\<close>

definition engine_process_frame_to_ascii ::
  "('frame \<Rightarrow> uint8_t list) \<Rightarrow> nat list \<Rightarrow> ProcessingContext \<Rightarrow> 'frame \<Rightarrow> EngineConfig \<Rightarrow> Grid
     \<Rightarrow> frame_result" where
  "engine_process_frame_to_ascii sws_scale schedule ctx frame config grid =
     (let ctx1 = alloc_frame_buffers ctx in
      if char_buffer ctx1 = None \<or> color_buffer ctx1 = None then Allocation_failed ctx1
      else
        let ctx2 = ctx1\<lparr>rgb_data := sws_scale frame\<rparr>;
            args = worker_args (ascii_height ctx2) (num_threads ctx2)
        in Frame_done ctx2 args
             (run_workers (process_cell ctx2 config) schedule (map (slice_cells ctx2) args) grid))"

text \<open>
  What a renderer reads after a frame: the \<open>ascii_width * ascii_height\<close> bytes of the
  character buffer and the three colour bytes of each cell.
\<close>

definition buffer_contents :: "ProcessingContext \<Rightarrow> Grid \<Rightarrow> char list \<times> uint8_t list" where
  "buffer_contents ctx grid =
     (map (chars grid) [0..ascii_width ctx * ascii_height ctx - 1],
      map (colors grid) [0..ascii_width ctx * ascii_height ctx * 3 - 1])"

text \<open>
  The same contents given cell by cell: the character and the colour bytes that the
  loop body computes for the cell at each index.
\<close>

definition cell_grid :: "ProcessingContext \<Rightarrow> EngineConfig \<Rightarrow> char list \<times> uint8_t list" where
  "cell_grid ctx config =
     (map (\<lambda>i. cell_char ctx config (i div ascii_width ctx) (i mod ascii_width ctx))
        [0..ascii_width ctx * ascii_height ctx - 1],
      map (\<lambda>j. cell_color ctx (j div 3 div ascii_width ctx) (j div 3 mod ascii_width ctx) (j mod 3))
        [0..ascii_width ctx * ascii_height ctx * 3 - 1])"

fun frame_output :: "frame_result \<Rightarrow> (char list \<times> uint8_t list) option" where
  "frame_output (Allocation_failed ctx) = None"
| "frame_output (Frame_done ctx args grid) = Some (buffer_contents ctx grid)"

section \<open>Console renderer\<close>

text \<open>The digits that \<open>%d\<close> prints for a value that is not negative.\<close>

fun decimal :: "nat \<Rightarrow> string" where
  "decimal n = (if n < 10 then [char_of (48 + n)] else decimal (n div 10) @ [char_of (48 + n mod 10)])"

declare decimal.simps [simp del]

text \<open>The text of \<open>"\x1b[38;2;%d;%d;%dm%c"\<close> for the colour and the character of a cell.\<close>

definition color_cell_text :: "uint8_t \<Rightarrow> uint8_t \<Rightarrow> uint8_t \<Rightarrow> char \<Rightarrow> string" where
  "color_cell_text r g b c =
     [CHR 0x1B] @ ''[38;2;'' @ decimal (unat r) @ '';'' @ decimal (unat g) @ '';''
       @ decimal (unat b) @ ''m'' @ [c]"

text \<open>
  \<open>sprintf(p, ...)\<close> stores the text and a terminating NUL from offset \<open>p\<close> on and
  returns the length of the text. A store is a pair of an offset from
  \<open>full_frame_buffer\<close> and the byte stored there.
\<close>

definition sprintf :: "nat \<Rightarrow> string \<Rightarrow> (nat \<times> char) list \<times> nat" where
  "sprintf p s = (zip [p..<p + length s + 1] (s @ [CHR 0x00]), length s)"

text \<open>The body of the inner loop, on \<open>buf_ptr\<close> (as an offset) and the stores made so far.\<close>

definition render_cell :: "EngineConfig \<Rightarrow> Grid \<Rightarrow> int \<Rightarrow> nat \<times> (nat \<times> char) list \<Rightarrow> nat \<times> (nat \<times> char) list" where
  "render_cell config grid idx st =
     (case st of (buf_ptr, stores) \<Rightarrow>
        if use_color config \<noteq> 0 then
          (let r = colors grid (idx * 3 + 0);
               g = colors grid (idx * 3 + 1);
               b = colors grid (idx * 3 + 2)
           in case sprintf buf_ptr (color_cell_text r g b (chars grid idx)) of
                (written, n) \<Rightarrow> (buf_ptr + n, stores @ written))
        else (buf_ptr + 1, stores @ [(buf_ptr, chars grid idx)]))"

definition render_row ::
  "ProcessingContext \<Rightarrow> EngineConfig \<Rightarrow> Grid \<Rightarrow> int \<Rightarrow> nat \<times> (nat \<times> char) list \<Rightarrow> nat \<times> (nat \<times> char) list" where
  "render_row ctx config grid y st =
     (case fold (\<lambda>x. render_cell config grid (y * ascii_width ctx + x)) [0..ascii_width ctx - 1] st of
        (buf_ptr, stores) \<Rightarrow> (buf_ptr + 1, stores @ [(buf_ptr, CHR 0x0A)]))"

definition render_rows :: "ProcessingContext \<Rightarrow> EngineConfig \<Rightarrow> Grid \<Rightarrow> (nat \<times> char) list" where
  "render_rows ctx config grid =
     (case fold (render_row ctx config grid) [0..ascii_height ctx - 1] (0, []) of
        (buf_ptr, stores) \<Rightarrow> stores @ [(buf_ptr, CHR 0x00)])"

text \<open>\<open>(size_t)(ctx->ascii_width * 20 + 2) * ctx->ascii_height\<close>.\<close>

definition full_buffer_size :: "ProcessingContext \<Rightarrow> size_t" where
  "full_buffer_size ctx = size_t_of_int (ascii_width ctx * 20 + 2) * size_t_of_int (ascii_height ctx)"

text \<open>
  \<open>engine_render_to_console\<close> up to the \<open>printf\<close> of the buffer: the context after the
  allocation and the stores made into \<open>full_frame_buffer\<close>, none when the allocation
  fails.
\<close>

definition engine_render_to_console ::
  "ProcessingContext \<Rightarrow> EngineConfig \<Rightarrow> Grid \<Rightarrow> ProcessingContext \<times> (nat \<times> char) list" where
  "engine_render_to_console ctx config grid =
     (case arena_alloc (frame_arena ctx) (full_buffer_size ctx) of
        (None, a) \<Rightarrow> (ctx, [])
      | (Some full_frame_buffer, a) \<Rightarrow> (ctx\<lparr>frame_arena := a\<rparr>, render_rows ctx config grid))"

text \<open>An invariant of the renderer loops: no store made so far lies above the write pointer.\<close>

definition stores_upto :: "nat \<Rightarrow> (nat \<times> char) list \<Rightarrow> bool" where
  "stores_upto p ws = (\<forall>off c. (off, c) \<in> set ws \<longrightarrow> off \<le> p)"


section \<open>Floating point: properties\<close>

text \<open>
  Powers of two with integer exponents, the bounds of the exponent, and the numbers
  that \<open>float32\<close> leaves as they are: \<open>m \<times> 2\<^sup>k\<close> with a significand below \<open>2\<^sup>2\<^sup>4\<close> and
  an exponent from -149 on, among them the integers up to \<open>2\<^sup>2\<^sup>4\<close>.
\<close>

lemma powi_nat: "(2::real) powi (int k) = 2 ^ k"
  by (rule power_int_of_nat)

lemma powi_neg_nat: "(2::real) powi (- int k) = 1 / 2 ^ k"
  by (simp add: power_int_minus inverse_eq_divide)

lemma powi_mono: "a \<le> b \<Longrightarrow> (2::real) powi a \<le> 2 powi b"
  by (rule power_int_increasing) simp_all

lemma powi_add: "(2::real) powi (a + b) = 2 powi a * 2 powi b"
  by (simp add: power_int_add)

lemma powi_diff: "(2::real) powi (a - b) = 2 powi a / 2 powi b"
  by (simp add: power_int_diff)

lemma round_half_even_of_int: "round_half_even (of_int n) = n"
  by (simp add: round_half_even_def)

lemma round_half_even_error: "\<bar>of_int (round_half_even q) - q\<bar> \<le> 1 / 2"
  unfolding round_half_even_def Let_def by (auto simp: abs_if) linarith+

lemma float32_zero: "float32 0 = 0"
  by (simp add: float32_def)

lemma float_exponent_bounds:
  assumes "0 < a"
  shows "2 powi (float_exponent a) \<le> a \<and> a < 2 powi (float_exponent a + 1)"
proof (cases "1 \<le> a")
  case True
  define n where "n = \<lfloor>a\<rfloor>"
  have n: "0 < n" using True by (simp add: n_def)
  define k where "k = nat (bitlen n - 1)"
  have b: "bitlen n = int k + 1"
    using n bitlen_eq_zero_iff [of n] bitlen_nonneg [of n] by (simp add: k_def)
  have k1: "nat (bitlen n - 1) = k" by (simp only: k_def)
  have k2: "nat (bitlen n) = k + 1" unfolding b by simp
  from bitlen_bounds [OF n] have lo: "2 ^ k \<le> n" and hi: "n < 2 ^ (k + 1)"
    unfolding k1 k2 by blast+
  have e: "float_exponent a = int k" using True by (simp add: float_exponent_def n_def [symmetric] b)
  have "real_of_int (2 ^ k) \<le> real_of_int n" using lo by (simp only: of_int_le_iff)
  also have "\<dots> \<le> a" by (simp add: n_def)
  finally have l: "(2::real) ^ k \<le> a" by simp
  have "n + 1 \<le> 2 ^ (k + 1)" using hi by simp
  then have "real_of_int (n + 1) \<le> real_of_int (2 ^ (k + 1))" by (simp only: of_int_le_iff)
  moreover have "a < real_of_int (n + 1)" by (simp add: n_def)
  ultimately have h: "a < (2::real) ^ (k + 1)" by simp
  have "(2::real) powi (int k + 1) = 2 ^ (k + 1)"
    using powi_nat [of "k + 1"] by (simp add: add.commute)
  with l h show ?thesis by (simp add: e)
next
  case False
  define y where "y = 1 / a"
  have y: "1 < y" using assms False by (simp add: y_def)
  define n where "n = \<lceil>y\<rceil> - 1"
  have n: "0 < n" using y by (simp add: n_def)
  define k where "k = nat (bitlen n - 1)"
  have b: "bitlen n = int k + 1"
    using n bitlen_eq_zero_iff [of n] bitlen_nonneg [of n] by (simp add: k_def)
  have k1: "nat (bitlen n - 1) = k" by (simp only: k_def)
  have k2: "nat (bitlen n) = k + 1" unfolding b by simp
  from bitlen_bounds [OF n] have lo: "2 ^ k \<le> n" and hi: "n < 2 ^ (k + 1)"
    unfolding k1 k2 by blast+
  have e: "float_exponent a = - (int k + 1)"
    using False by (simp add: float_exponent_def y_def [symmetric] n_def [symmetric] b)
  have ny: "real_of_int n < y" by (simp add: n_def) linarith
  have "real_of_int (2 ^ k) \<le> real_of_int n" using lo by (simp only: of_int_le_iff)
  then have "(2::real) ^ k \<le> real_of_int n" by simp
  with ny have l: "(2::real) ^ k < y" by linarith
  have "n + 1 \<le> 2 ^ (k + 1)" using hi by simp
  then have "real_of_int (n + 1) \<le> real_of_int (2 ^ (k + 1))" by (simp only: of_int_le_iff)
  then have "real_of_int (n + 1) \<le> (2::real) ^ (k + 1)" by simp
  moreover have "y \<le> real_of_int (n + 1)" by (simp add: n_def)
  ultimately have h: "y \<le> (2::real) ^ (k + 1)" by linarith
  have a: "a = 1 / y" using assms by (simp add: y_def)
  have p1: "(2::real) powi (- (int k + 1)) = 1 / 2 ^ (k + 1)"
    using powi_neg_nat [of "k + 1"] by (simp add: add.commute)
  have p2: "(2::real) powi (- (int k + 1) + 1) = 1 / 2 ^ k"
    using powi_neg_nat [of k] by simp
  have "1 / 2 ^ (k + 1) \<le> 1 / y" using h y by (intro divide_left_mono) simp_all
  then have r1: "1 / 2 ^ (k + 1) \<le> a" by (simp only: a)
  have "1 / y < 1 / 2 ^ k" using l y by (intro divide_strict_left_mono) simp_all
  then have r2: "a < 1 / 2 ^ k" by (simp only: a)
  show ?thesis unfolding e p1 p2 using r1 r2 by blast
qed


lemma float32_exact:
  assumes ulp: "\<And>e. 2 powi e \<le> \<bar>x\<bar> \<Longrightarrow> max e (- 126) - 23 \<le> k" and x: "x = of_int m * 2 powi k"
  shows "float32 x = x"
proof (cases "x = 0")
  case True
  then show ?thesis by (simp add: float32_def)
next
  case False
  define e where "e = max (float_exponent \<bar>x\<bar>) (- 126)"
  have "2 powi (float_exponent \<bar>x\<bar>) \<le> \<bar>x\<bar>"
    using float_exponent_bounds [of "\<bar>x\<bar>"] False by simp
  then have ek: "e - 23 \<le> k" unfolding e_def by (rule ulp)
  define j where "j = nat (k - (e - 23))"
  have k: "k = (e - 23) + int j" using ek by (simp add: j_def)
  have "x / 2 powi (e - 23) = of_int m * 2 powi (int j)"
    unfolding x k powi_add by simp
  also have "\<dots> = of_int (m * 2 ^ j)" by (simp add: powi_nat)
  finally have q: "x / 2 powi (e - 23) = of_int (m * 2 ^ j)" .
  have "float32 x = of_int (round_half_even (x / 2 powi (e - 23))) * 2 powi (e - 23)"
    using False by (simp add: float32_def Let_def e_def)
  also have "\<dots> = of_int (m * 2 ^ j) * 2 powi (e - 23)"
    by (simp only: q round_half_even_of_int)
  also have "\<dots> = x / 2 powi (e - 23) * 2 powi (e - 23)" by (simp only: q)
  also have "\<dots> = x" by simp
  finally show ?thesis .
qed

lemma float32_representable:
  assumes m: "\<bar>m\<bar> < 2 ^ 24" and k: "- 149 \<le> k"
  shows "float32 (of_int m * 2 powi k) = of_int m * 2 powi k"
proof (rule float32_exact [where m = m and k = k])
  fix e :: int
  assume e: "2 powi e \<le> \<bar>real_of_int m * 2 powi k\<bar>"
  have "real_of_int \<bar>m\<bar> < real_of_int (2 ^ 24)" using m by (simp only: of_int_less_iff)
  then have "\<bar>real_of_int m\<bar> < 2 powi 24" by simp
  then have "\<bar>real_of_int m * 2 powi k\<bar> < 2 powi 24 * 2 powi k"
    by (simp add: abs_mult)
  with e have lt: "(2::real) powi e < 2 powi (24 + k)" by (simp only: powi_add)
  have "e < 24 + k"
  proof (rule ccontr)
    assume "\<not> e < 24 + k"
    then have "(2::real) powi (24 + k) \<le> 2 powi e" by (intro powi_mono) simp
    with lt show False by simp
  qed
  with k show "max e (- 126) - 23 \<le> k" by simp
qed simp

lemma float32_of_int:
  assumes "\<bar>n\<bar> \<le> 2 ^ 24"
  shows "float32 (of_int n) = of_int n"
proof (cases "\<bar>n\<bar> < 2 ^ 24")
  case True
  from float32_representable [OF True, of 0] show ?thesis by simp
next
  case False
  with assms have "n = 2 ^ 24 \<or> n = - (2 ^ 24)" by linarith
  then have n: "real_of_int (n div 2) * 2 powi 1 = real_of_int n" by auto
  have "\<bar>n div 2\<bar> < 2 ^ 24" using assms by simp
  from float32_representable [OF this, of 1] show ?thesis by (simp only: n)
qed

lemma float32_numeral:
  "numeral v \<le> (16777216::int) \<Longrightarrow> float32 (numeral v) = numeral v"
  using float32_of_int [of "numeral v"] by simp

lemma float32_neg_numeral:
  "numeral v \<le> (16777216::int) \<Longrightarrow> float32 (- numeral v) = - numeral v"
  using float32_of_int [of "- numeral v"] by simp

lemma float32_one: "float32 1 = 1"
  using float32_of_int [of 1] by simp

lemma float32_neg_one: "float32 (- 1) = - 1"
  using float32_of_int [of "- 1"] by simp

lemma round_half_even_nonneg: "0 \<le> q \<Longrightarrow> 0 \<le> round_half_even q"
  by (simp add: round_half_even_def Let_def)

lemma round_half_even_le:
  assumes "q \<le> of_int N"
  shows "round_half_even q \<le> N"
proof -
  have n: "\<lfloor>q\<rfloor> \<le> N" using assms by (simp add: floor_le_iff)
  have "\<lfloor>q\<rfloor> < N" if "0 < q - of_int \<lfloor>q\<rfloor>"
  proof -
    have "of_int \<lfloor>q\<rfloor> < q" using that by simp
    with assms have "real_of_int \<lfloor>q\<rfloor> < real_of_int N" by linarith
    then show ?thesis by (simp only: of_int_less_iff)
  qed
  with n show ?thesis by (auto simp: round_half_even_def Let_def)
qed

lemma float32_nonneg:
  assumes "0 \<le> x"
  shows "0 \<le> float32 x"
proof -
  have "0 \<le> round_half_even (x / 2 powi e)" for e
    using assms by (intro round_half_even_nonneg) simp
  then show ?thesis by (simp add: float32_def Let_def)
qed

lemma float32_le_pow2:
  assumes x0: "0 \<le> x" and xj: "x \<le> 2 powi j" and j: "- 126 \<le> j"
  shows "float32 x \<le> 2 powi j"
proof (cases "x = 0")
  case True
  then show ?thesis by (simp add: float32_def)
next
  case False
  with x0 have pos: "0 < x" by simp
  define e where "e = max (float_exponent \<bar>x\<bar>) (- 126)"
  have "2 powi (float_exponent x) \<le> x" using float_exponent_bounds [OF pos] by blast
  with xj have le: "(2::real) powi (float_exponent x) \<le> 2 powi j" by linarith
  have "float_exponent x \<le> j"
  proof (rule ccontr)
    assume "\<not> float_exponent x \<le> j"
    then have "(2::real) powi j < 2 powi (float_exponent x)"
      by (intro power_int_strict_increasing) simp_all
    with le show False by simp
  qed
  with j pos have ej: "e \<le> j" by (simp add: e_def)
  define i where "i = nat (j - (e - 23))"
  have ji: "j = (e - 23) + int i" using ej by (simp add: i_def)
  have u: "0 < (2::real) powi (e - 23)" by simp
  have "x / 2 powi (e - 23) \<le> 2 powi j / 2 powi (e - 23)"
    using xj u by (simp add: divide_right_mono)
  also have "\<dots> = 2 powi (int i)" unfolding ji powi_add by simp
  also have "\<dots> = of_int (2 ^ i)" by (simp add: powi_nat)
  finally have "round_half_even (x / 2 powi (e - 23)) \<le> 2 ^ i" by (rule round_half_even_le)
  then have "real_of_int (round_half_even (x / 2 powi (e - 23))) \<le> real_of_int (2 ^ i)"
    by (simp only: of_int_le_iff)
  then have "real_of_int (round_half_even (x / 2 powi (e - 23))) * 2 powi (e - 23)
      \<le> real_of_int (2 ^ i) * 2 powi (e - 23)"
    using u by (simp only: mult_le_cancel_right_pos)
  also have "real_of_int (2 ^ i) * 2 powi (e - 23) = 2 powi j"
    unfolding ji powi_add by (simp add: powi_nat)
  finally show ?thesis using False by (simp add: float32_def Let_def e_def)
qed

lemma float32_unit_interval: "0 \<le> x \<Longrightarrow> x \<le> 1 \<Longrightarrow> 0 \<le> float32 x \<and> float32 x \<le> 1"
  using float32_nonneg [of x] float32_le_pow2 [of x 0] by simp

text \<open>
  The error of a rounding: at most the fraction \<open>2\<^sup>-\<^sup>2\<^sup>4\<close> of a number that is not below the
  smallest normal number \<open>2\<^sup>-\<^sup>1\<^sup>2\<^sup>6\<close>.
\<close>

lemma float32_nonpos:
  assumes "x \<le> 0"
  shows "float32 x \<le> 0"
proof -
  have "round_half_even (x / 2 powi e) \<le> 0" for e
  proof (rule round_half_even_le)
    have "x / 2 powi e \<le> 0" using assms by (simp add: divide_nonpos_pos)
    then show "x / 2 powi e \<le> real_of_int 0" by simp
  qed
  then show ?thesis by (simp add: float32_def Let_def mult_le_0_iff)
qed

lemma float32_rel_error:
  assumes n: "2 powi (- 126) \<le> \<bar>x\<bar>"
  shows "\<bar>float32 x - x\<bar> \<le> \<bar>x\<bar> / 2 ^ 24"
proof -
  have "0 < (2::real) powi (- 126)" by simp
  with n have pos: "0 < \<bar>x\<bar>" by linarith
  then have x0: "x \<noteq> 0" by simp
  define e where "e = float_exponent \<bar>x\<bar>"
  from float_exponent_bounds [OF pos]
  have lo: "2 powi e \<le> \<bar>x\<bar>" and hi: "\<bar>x\<bar> < 2 powi (e + 1)" by (simp_all add: e_def)
  have "- 126 < e + 1"
  proof (rule ccontr)
    assume "\<not> - 126 < e + 1"
    then have "(2::real) powi (e + 1) \<le> 2 powi (- 126)" by (intro powi_mono) simp
    with hi n show False by linarith
  qed
  then have m: "max e (- 126) = e" by simp
  define u where "u = (2::real) powi (e - 23)"
  have u: "0 < u" by (simp add: u_def)
  define r where "r = round_half_even (x / u)"
  have f: "float32 x = of_int r * u"
    using x0 m by (simp add: float32_def Let_def e_def [symmetric] u_def r_def)
  have "\<bar>of_int r - x / u\<bar> \<le> 1 / 2" unfolding r_def by (rule round_half_even_error)
  then have "\<bar>of_int r - x / u\<bar> * u \<le> 1 / 2 * u" using u by (simp only: mult_le_cancel_right_pos)
  moreover have "\<bar>of_int r - x / u\<bar> * u = \<bar>of_int r * u - x\<bar>"
  proof -
    have "\<bar>of_int r - x / u\<bar> * u = \<bar>(of_int r - x / u) * u\<bar>" using u by (simp add: abs_mult)
    also have "(of_int r - x / u) * u = of_int r * u - x" using u by (simp add: algebra_simps)
    finally show ?thesis .
  qed
  ultimately have d: "\<bar>float32 x - x\<bar> \<le> u / 2" by (simp add: f)
  have "u = 2 powi e / 2 ^ 23" unfolding u_def powi_diff by simp
  then have "u / 2 = 2 powi e / 2 ^ 24" by simp
  also have "\<dots> \<le> \<bar>x\<bar> / 2 ^ 24" using lo by (simp add: divide_right_mono)
  finally show ?thesis using d by linarith
qed


lemma float32_bounds:
  assumes "x = 0 \<or> 1 / 2 ^ 126 \<le> x"
  shows "x * (1 - 1 / 2 ^ 24) \<le> float32 x \<and> float32 x \<le> x * (1 + 1 / 2 ^ 24)"
proof (cases "x = 0")
  case True
  then show ?thesis by (simp add: float32_zero)
next
  case False
  with assms have n: "1 / 2 ^ 126 \<le> x" by blast
  have "(0::real) < 1 / 2 ^ 126" by simp
  with n have pos: "0 < x" by linarith
  have "(2::real) powi (- 126) = 1 / 2 ^ 126" using powi_neg_nat [of 126] by simp
  with n pos have "2 powi (- 126) \<le> \<bar>x\<bar>" by simp
  from float32_rel_error [OF this] pos have d: "\<bar>float32 x - x\<bar> \<le> x / 16777216" by simp
  have e1: "x * (1 - 1 / 2 ^ 24) = x - x / 16777216" by (simp add: algebra_simps)
  have e2: "x * (1 + 1 / 2 ^ 24) = x + x / 16777216" by (simp add: algebra_simps)
  show ?thesis unfolding e1 e2 using d by linarith
qed

lemma float32_bounds_compose:
  assumes r: "x = 0 \<or> 1 / 2 ^ 126 \<le> x" and l: "X * l \<le> x" and h: "x \<le> X * h"
  shows "X * (l * (1 - 1 / 2 ^ 24)) \<le> float32 x \<and> float32 x \<le> X * (h * (1 + 1 / 2 ^ 24))"
proof -
  from float32_bounds [OF r]
  have lo: "x * (1 - 1 / 2 ^ 24) \<le> float32 x" and hi: "float32 x \<le> x * (1 + 1 / 2 ^ 24)" by blast+
  have "X * l * (1 - 1 / 2 ^ 24) \<le> x * (1 - 1 / 2 ^ 24)" using l by (intro mult_right_mono) simp_all
  with lo have a: "X * (l * (1 - 1 / 2 ^ 24)) \<le> float32 x" by (simp only: mult.assoc)
  have "x * (1 + 1 / 2 ^ 24) \<le> X * h * (1 + 1 / 2 ^ 24)" using h by (intro mult_right_mono) simp_all
  with hi have b: "float32 x \<le> X * (h * (1 + 1 / 2 ^ 24))" by (simp only: mult.assoc)
  from a b show ?thesis by blast
qed

lemma float32_range:
  assumes "x = 0 \<or> c \<le> x" and c: "1 / 2 ^ 126 \<le> c"
  shows "float32 x = 0 \<or> c / 2 \<le> float32 x"
proof (cases "x = 0")
  case True
  then show ?thesis by (simp add: float32_zero)
next
  case False
  with assms have x: "c \<le> x" by blast
  with c have "x = 0 \<or> 1 / 2 ^ 126 \<le> x" by linarith
  from float32_bounds [OF this] have "x * (1 - 1 / 2 ^ 24) \<le> float32 x" by blast
  moreover have "c * (1 - 1 / 2 ^ 24) \<le> x * (1 - 1 / 2 ^ 24)" using x by (intro mult_right_mono) simp_all
  moreover have "0 \<le> c" using c by (simp add: order_trans [of 0 "1 / 2 ^ 126"])
  then have "c / 2 \<le> c * (1 - 1 / 2 ^ 24)" by simp
  ultimately show ?thesis by linarith
qed

lemma square_range:
  assumes "x = 0 \<or> 1 / 2 ^ 40 \<le> \<bar>x\<bar>"
  shows "x * x = 0 \<or> 1 / 2 ^ 80 \<le> x * (x::real)"
proof (cases "x = 0")
  case True
  then show ?thesis by simp
next
  case False
  with assms have "1 / 2 ^ 40 \<le> \<bar>x\<bar>" by blast
  then have "(1 / 2 ^ 40) * (1 / 2 ^ 40) \<le> \<bar>x\<bar> * \<bar>x\<bar>" by (intro mult_mono) simp_all
  then show ?thesis by simp
qed

text \<open>The constants of the source that are not binary32 numbers, rounded.\<close>

lemma D_THRESH_value: "D_THRESH = 5062973 / 2097152"
  unfolding D_THRESH_def by code_simp

lemma edge_strength_default: "edge_strength default_config = 13421773 / 33554432"
  unfolding default_config_def by code_simp

section \<open>Arena: properties\<close>

lemma and_not_15_shift: "(w :: size_t) AND NOT 15 = push_bit 4 (drop_bit 4 w)"
proof -
  have "(15 :: size_t) = mask 4" by (simp add: mask_eq_exp_minus_1)
  then show ?thesis
    by (simp add: bit_eq_iff bit_simps) (auto simp: bit_simps)
qed

lemma unat_and_not_15: "unat ((w :: size_t) AND NOT 15) = (unat w div 16) * 16"
proof -
  have "unat (push_bit 4 (drop_bit 4 w)) = take_bit 64 (push_bit 4 (drop_bit 4 (unat w)))"
    by (simp add: unsigned_push_bit_eq unat_drop_bit_eq)
  also have "\<dots> = (unat w div 16) * 16"
  proof -
    have "(unat w div 16) * 16 \<le> unat w" by simp
    moreover have "unat w < 2 ^ 64" using unsigned_less [of w] by simp
    ultimately have "(unat w div 16) * 16 < 2 ^ 64" by linarith
    then show ?thesis
      by (simp add: push_bit_eq_mult drop_bit_eq_div take_bit_eq_mod)
  qed
  finally show ?thesis by (simp only: and_not_15_shift)
qed

lemma unat_round_up:
  assumes "unat sz + 15 < 2 ^ 64"
  shows "unat (((sz :: size_t) + 15) AND NOT 15) = align16 (unat sz)"
proof -
  have "unat (sz + 15) = unat sz + 15"
    using assms by (simp add: unat_add_lem [THEN iffD1])
  then show ?thesis using unat_and_not_15 [of "sz + 15"] by (simp add: align16_def)
qed

text \<open>
  Within the range of \<open>size_t\<close> the allocator does what its comment says: the request is
  rounded up to a multiple of 16; it succeeds, returning \<open>start + used\<close> and advancing
  \<open>used\<close> by the rounded size, exactly when the rounded size fits in \<open>size - used\<close>;
  otherwise it returns \<open>NULL\<close> and leaves the arena as it was.
\<close>

lemma arena_alloc_in_range:
  assumes inv: "used a \<le> size_bytes a"
    and small: "unat sz + 15 + unat (size_bytes a) < 2 ^ 64"
  shows "arena_alloc a sz =
           (if align16 (unat sz) \<le> unat (size_bytes a) - unat (used a)
            then (Some (start a + used a), a\<lparr>used := used a + word_of_nat (align16 (unat sz))\<rparr>)
            else (None, a))"
proof -
  let ?r = "(sz + 15) AND NOT 15"
  have r: "unat ?r = align16 (unat sz)"
    using small by (intro unat_round_up) simp
  have le: "align16 (unat sz) \<le> unat sz + 15"
    by (simp add: align16_def)
  have u: "unat (used a) \<le> unat (size_bytes a)"
    using inv by (simp add: word_le_nat_alt)
  have "unat (used a) + unat ?r < 2 ^ 64"
    using small le u r by linarith
  then have sum: "unat (used a + ?r) = unat (used a) + unat ?r"
    by (simp add: unat_add_lem [THEN iffD1])
  have "(used a + ?r > size_bytes a) = (unat (used a) + align16 (unat sz) > unat (size_bytes a))"
    by (simp only: word_less_nat_alt sum r)
  moreover have "word_of_nat (align16 (unat sz)) = ?r"
    using r [symmetric] by simp
  ultimately show ?thesis
    using u by (auto simp: arena_alloc_def Let_def)
qed

lemma arena_reset_used: "used (arena_reset a) = 0 \<and> size_bytes (arena_reset a) = size_bytes a"
  by (simp add: arena_reset_def)

text \<open>
  C6. The claim is about every allocation request. \<open>arena_alloc\<close> computes both the
  rounding \<open>(size + 15) & ~15\<close> and the test \<open>used + size > a->size\<close> in \<open>size_t\<close>, and
  neither is guarded against wrap-around. On a freshly reset 64 MiB arena a request
  of \<open>2^64 - 1\<close> bytes (what \<open>engine_process_frame_to_ascii\<close> requests for a grid of
  width -1 and height 1) is rounded to 0, not up, and a non-null pointer is returned
  although the request does not fit. With 16 bytes in use, a request of \<open>2^64 - 16\<close>
  bytes (already a multiple of 16) makes \<open>used + size\<close> wrap to 0: again a non-null
  pointer is returned, and the used mark moves back to 0.
\<close>

theorem arena_alloc_wraps:
  "arena_alloc \<lparr>start = 4096, size_bytes = 67108864, used = 0\<rparr> 18446744073709551615
     = (Some 4096, \<lparr>start = 4096, size_bytes = 67108864, used = 0\<rparr>)
   \<and> size_t_of_int (-1) * size_t_of_int 1 = 18446744073709551615
   \<and> arena_alloc \<lparr>start = 4096, size_bytes = 67108864, used = 16\<rparr> 18446744073709551600
     = (Some 4112, \<lparr>start = 4096, size_bytes = 67108864, used = 0\<rparr>)"
  by (simp add: arena_alloc_def size_t_of_int_def)

section \<open>Row bands: properties\<close>

lemma c_div_nonneg: "0 \<le> a \<Longrightarrow> 0 < b \<Longrightarrow> c_div a b = a div b"
  by (simp add: c_div_def)

lemma init_num_threads_pos: "1 \<le> init_num_threads c p"
  by (simp add: init_num_threads_def)

lemma length_worker_args: "length (worker_args h n) = nat n"
  by (simp add: worker_args_def)

lemma nth_worker_args: "k < nat n \<Longrightarrow> worker_args h n ! k = thread_args h n (int k)"
  by (simp add: worker_args_def)

lemma start_row_thread_args: "0 \<le> h \<Longrightarrow> 0 < n \<Longrightarrow> start_row (thread_args h n i) = i * (h div n)"
  by (simp add: thread_args_def c_div_nonneg Let_def)

lemma end_row_thread_args:
  "0 \<le> h \<Longrightarrow> 0 < n \<Longrightarrow> end_row (thread_args h n i) = (if i = n - 1 then h else (i + 1) * (h div n))"
  by (simp add: thread_args_def c_div_nonneg Let_def)

lemma last_start_le: 
  assumes "0 \<le> h" "0 < n" shows "(n - 1) * (h div n) \<le> (h::int)"
proof -
  have "0 \<le> h div n" using assms by (simp add: pos_imp_zdiv_nonneg_iff)
  then have "(n - 1) * (h div n) \<le> n * (h div n)"
    by (intro mult_right_mono) simp_all
  also have "\<dots> \<le> h"
    using mult_div_mod_eq [of n h] pos_mod_sign [of n h] assms by linarith
  finally show ?thesis .
qed

lemma band_step:
  assumes "0 \<le> r" "k1 < k2" shows "(int k1 + 1) * r \<le> int k2 * (r::int)"
  using assms by (intro mult_right_mono) simp_all

text \<open>A lower band ends before a higher one starts.\<close>

lemma bands_ordered:
  assumes h: "0 \<le> h" and n: "0 < n" and k: "k1 < k2" "k2 < nat n"
  shows "end_row (worker_args h n ! k1) \<le> start_row (worker_args h n ! k2)"
proof -
  have r: "0 \<le> h div n" using h n by (simp add: pos_imp_zdiv_nonneg_iff)
  have "int k1 \<noteq> n - 1" using k by linarith
  then have "end_row (worker_args h n ! k1) = (int k1 + 1) * (h div n)"
    using h n k by (simp add: nth_worker_args end_row_thread_args)
  moreover have "start_row (worker_args h n ! k2) = int k2 * (h div n)"
    using h n k by (simp add: nth_worker_args start_row_thread_args)
  ultimately show ?thesis using band_step [OF r k(1)] by simp
qed

lemma band_nonempty_range:
  assumes h: "0 \<le> h" and n: "0 < n" and k: "k < nat n"
  shows "0 \<le> start_row (worker_args h n ! k)"
    and "start_row (worker_args h n ! k) \<le> end_row (worker_args h n ! k)"
    and "end_row (worker_args h n ! k) \<le> h"
proof -
  have r: "0 \<le> h div n" using h n by (simp add: pos_imp_zdiv_nonneg_iff)
  have s: "start_row (worker_args h n ! k) = int k * (h div n)"
    using h n k by (simp add: nth_worker_args start_row_thread_args)
  have e: "end_row (worker_args h n ! k) = (if int k = n - 1 then h else (int k + 1) * (h div n))"
    using h n k by (simp add: nth_worker_args end_row_thread_args)
  show "0 \<le> start_row (worker_args h n ! k)" using r s by simp
  have le1: "int k * (h div n) \<le> (n - 1) * (h div n)"
    using r k by (intro mult_right_mono) auto
  have le2: "(int k + 1) * (h div n) \<le> n * (h div n)"
    using r k by (intro mult_right_mono) auto
  have le3: "n * (h div n) \<le> h"
    using mult_div_mod_eq [of n h] pos_mod_sign [of n h] n by linarith
  have le4: "int k * (h div n) \<le> (int k + 1) * (h div n)"
    using r by (intro mult_right_mono) auto
  show "start_row (worker_args h n ! k) \<le> end_row (worker_args h n ! k)"
    using s e le1 le4 last_start_le [OF h n] by (auto split: if_splits)
  show "end_row (worker_args h n ! k) \<le> h"
    using e le2 le3 by (auto split: if_splits)
qed

lemma row_in_some_band:
  assumes h: "0 \<le> h" and n: "0 < n" and y: "0 \<le> y" "y < h"
  shows "\<exists>k < nat n. y \<in> band_rows (worker_args h n ! k)"
proof (cases "y < (n - 1) * (h div n)")
  case True
  define r where "r = h div n"
  have r0: "0 \<le> r" using h n by (simp add: r_def pos_imp_zdiv_nonneg_iff)
  have rpos: "0 < r"
  proof (rule ccontr)
    assume "\<not> 0 < r" then have "r = 0" using r0 by simp
    then show False using True y by (simp add: r_def)
  qed
  define q where "q = y div r"
  have q0: "0 \<le> q" using y rpos by (simp add: q_def pos_imp_zdiv_nonneg_iff)
  have dm: "r * q + y mod r = y"
    unfolding q_def by (rule mult_div_mod_eq)
  have "r * q \<le> y"
    using dm pos_mod_sign [OF rpos, of y] by linarith
  then have lo: "q * r \<le> y" by (simp add: mult.commute)
  have "y < r * q + r"
    using dm pos_mod_bound [OF rpos, of y] by linarith
  then have hi: "y < (q + 1) * r" by (simp add: algebra_simps)
  have qlt: "q < n - 1"
  proof (rule ccontr)
    assume "\<not> q < n - 1"
    then have "(n - 1) * r \<le> q * r" using r0 by (intro mult_right_mono) auto
    then show False using lo True by (simp add: r_def)
  qed
  let ?k = "nat q"
  have k: "?k < nat n" using q0 qlt by linarith
  have "int ?k = q" using q0 by simp
  moreover have "q \<noteq> n - 1" using qlt by simp
  ultimately have "start_row (worker_args h n ! ?k) = q * r" "end_row (worker_args h n ! ?k) = (q + 1) * r"
    using h n k by (simp_all add: nth_worker_args start_row_thread_args end_row_thread_args r_def)
  then have "y \<in> band_rows (worker_args h n ! ?k)"
    using lo hi by (simp add: band_rows_def)
  then show ?thesis using k by blast
next
  case False
  let ?k = "nat (n - 1)"
  have k: "?k < nat n" using n by linarith
  have "int ?k = n - 1" using n by simp
  then have "start_row (worker_args h n ! ?k) = (n - 1) * (h div n)" "end_row (worker_args h n ! ?k) = h"
    using h n k by (simp_all add: nth_worker_args start_row_thread_args end_row_thread_args)
  then have "y \<in> band_rows (worker_args h n ! ?k)"
    using False y by (simp add: band_rows_def)
  then show ?thesis using k by blast
qed


lemma last_worker_args:
  assumes n: "0 < n"
  shows "last (worker_args h n) = thread_args h n (n - 1)"
proof -
  have "worker_args h n \<noteq> []" using n by (simp add: worker_args_def)
  then have "last (worker_args h n) = worker_args h n ! (nat n - 1)"
    by (simp add: last_conv_nth length_worker_args)
  also have "\<dots> = thread_args h n (int (nat n - 1))"
    using n by (intro nth_worker_args) linarith
  also have "int (nat n - 1) = n - 1" using n by simp
  finally show ?thesis .
qed

lemma bands_disjoint:
  assumes h: "0 \<le> h" and n: "0 < n" and k: "k1 < k2" "k2 < nat n"
  shows "band_rows (worker_args h n ! k1) \<inter> band_rows (worker_args h n ! k2) = {}"
  using bands_ordered [OF h n k] by (auto simp: band_rows_def)

lemma bands_union:
  assumes h: "0 \<le> h" and n: "0 < n"
  shows "(\<Union>k<nat n. band_rows (worker_args h n ! k)) = {0..<h}"
proof (rule set_eqI)
  fix y
  show "y \<in> (\<Union>k<nat n. band_rows (worker_args h n ! k)) \<longleftrightarrow> y \<in> {0..<h}"
  proof
    assume "y \<in> (\<Union>k<nat n. band_rows (worker_args h n ! k))"
    then obtain k where k: "k < nat n" and y: "y \<in> band_rows (worker_args h n ! k)" by auto
    from band_nonempty_range [OF h n k] y show "y \<in> {0..<h}"
      by (simp add: band_rows_def)
  next
    assume "y \<in> {0..<h}"
    then have "0 \<le> y" "y < h" by simp_all
    from row_in_some_band [OF h n this] show "y \<in> (\<Union>k<nat n. band_rows (worker_args h n ! k))"
      by auto
  qed
qed

lemma row_in_one_band:
  assumes h: "0 \<le> h" and n: "0 < n" and y: "0 \<le> y" "y < h"
  shows "\<exists>!k. k < nat n \<and> y \<in> band_rows (worker_args h n ! k)"
proof -
  from row_in_some_band [OF h n y] obtain k where k: "k < nat n" "y \<in> band_rows (worker_args h n ! k)"
    by blast
  have "j = k" if j: "j < nat n" "y \<in> band_rows (worker_args h n ! j)" for j
  proof (rule ccontr)
    assume "j \<noteq> k"
    then consider "j < k" | "k < j" by linarith
    then show False
    proof cases
      case 1
      from bands_disjoint [OF h n 1 k(1)] j(2) k(2) show False by blast
    next
      case 2
      from bands_disjoint [OF h n 2 j(1)] j(2) k(2) show False by blast
    qed
  qed
  with k show ?thesis by blast
qed

text \<open>
  C4. For every output height \<open>h \<ge> 0\<close> and the worker count \<open>n\<close> fixed by
  \<open>engine_init\<close> (so \<open>n \<ge> 1\<close>), the \<open>n\<close> row bands of
  \<open>engine_process_frame_to_ascii\<close> start at row 0, end at row \<open>h\<close>, are contiguous
  (each band ends where the next starts) and pairwise disjoint; their union is exactly
  \<open>[0, h)\<close> and every row lies in exactly one band; every band but the last has
  \<open>\<lfloor>h / n\<rfloor>\<close> rows and the last has \<open>\<lfloor>h / n\<rfloor> + h mod n\<close>; when \<open>h < n\<close> every
  band but the last is empty.
\<close>

theorem bands_partition:
  assumes h: "0 \<le> h" and init: "n = init_num_threads config_threads nprocs"
  shows "1 \<le> n \<and> length (worker_args h n) = nat n
    \<and> start_row (worker_args h n ! 0) = 0
    \<and> end_row (last (worker_args h n)) = h
    \<and> (\<forall>k. Suc k < nat n \<longrightarrow>
          end_row (worker_args h n ! k) = start_row (worker_args h n ! Suc k))
    \<and> (\<forall>k. Suc k < nat n \<longrightarrow>
          end_row (worker_args h n ! k) - start_row (worker_args h n ! k) = h div n)
    \<and> end_row (last (worker_args h n)) - start_row (last (worker_args h n)) = h div n + h mod n
    \<and> (\<forall>j k. j < k \<and> k < nat n \<longrightarrow>
          band_rows (worker_args h n ! j) \<inter> band_rows (worker_args h n ! k) = {})
    \<and> (\<Union>k<nat n. band_rows (worker_args h n ! k)) = {0..<h}
    \<and> (\<forall>y. 0 \<le> y \<and> y < h \<longrightarrow> (\<exists>!k. k < nat n \<and> y \<in> band_rows (worker_args h n ! k)))
    \<and> (h < n \<longrightarrow> (\<forall>k. Suc k < nat n \<longrightarrow> band_rows (worker_args h n ! k) = {}))"
proof -
  have n1: "1 \<le> n" unfolding init by (rule init_num_threads_pos)
  then have n: "0 < n" by simp
  have first: "start_row (worker_args h n ! 0) = 0"
    using h n by (simp add: nth_worker_args start_row_thread_args)
  have lst: "end_row (last (worker_args h n)) = h"
    using h n by (simp add: last_worker_args end_row_thread_args)
  have contig: "end_row (worker_args h n ! k) = start_row (worker_args h n ! Suc k)"
    if "Suc k < nat n" for k
  proof -
    have "int k \<noteq> n - 1" using that by linarith
    then show ?thesis
      using h n that by (simp add: nth_worker_args start_row_thread_args end_row_thread_args)
  qed
  have sz: "end_row (worker_args h n ! k) - start_row (worker_args h n ! k) = h div n"
    if "Suc k < nat n" for k
  proof -
    have "int k \<noteq> n - 1" using that by linarith
    then show ?thesis
      using h n that
      by (simp add: nth_worker_args start_row_thread_args end_row_thread_args algebra_simps)
  qed
  have lastsz: "end_row (last (worker_args h n)) - start_row (last (worker_args h n)) = h div n + h mod n"
  proof -
    have "h - (n - 1) * (h div n) = h div n + (h - n * (h div n))"
      by (simp add: algebra_simps)
    also have "h - n * (h div n) = h mod n"
      by (simp add: minus_mult_div_eq_mod)
    finally show ?thesis
      using h n by (simp add: last_worker_args start_row_thread_args end_row_thread_args)
  qed
  have disj: "band_rows (worker_args h n ! j) \<inter> band_rows (worker_args h n ! k) = {}"
    if "j < k \<and> k < nat n" for j k
    using bands_disjoint [OF h n] that by blast
  have small: "band_rows (worker_args h n ! k) = {}" if "h < n" "Suc k < nat n" for k
  proof -
    have "h div n = 0" using h that(1) by (simp add: div_pos_pos_trivial)
    moreover have "int k \<noteq> n - 1" using that(2) by linarith
    ultimately show ?thesis
      using h n that(2)
      by (simp add: band_rows_def nth_worker_args start_row_thread_args end_row_thread_args)
  qed
  show ?thesis
    using n1 first lst contig sz lastsz disj bands_union [OF h n] row_in_one_band [OF h n] small
    by (simp add: length_worker_args)
qed

text \<open>An instance: ten rows and four configured workers.\<close>

theorem bands_partition_witness:
  "(0::int) \<le> 10
   \<and> worker_args 10 (init_num_threads 4 8) =
       [\<lparr>start_row = 0, end_row = 2\<rparr>, \<lparr>start_row = 2, end_row = 4\<rparr>,
        \<lparr>start_row = 4, end_row = 6\<rparr>, \<lparr>start_row = 6, end_row = 10\<rparr>]
   \<and> (\<Union>k<nat (init_num_threads 4 8). band_rows (worker_args 10 (init_num_threads 4 8) ! k)) = {0..<10}
   \<and> end_row (last (worker_args 10 (init_num_threads 4 8)))
       - start_row (last (worker_args 10 (init_num_threads 4 8))) = 10 div 4 + 10 mod 4"
proof -
  have bands: "worker_args 10 (init_num_threads 4 8) =
       [\<lparr>start_row = 0, end_row = 2\<rparr>, \<lparr>start_row = 2, end_row = 4\<rparr>,
        \<lparr>start_row = 4, end_row = 6\<rparr>, \<lparr>start_row = 6, end_row = 10\<rparr>]"
    by code_simp
  show ?thesis
    using bands_partition [of 10 "init_num_threads 4 8" 4 8] bands by simp
qed

section \<open>Tile processor: properties\<close>

lemma split_ctx_fields:
  "dec_width split_ctx = 4" "dec_height split_ctx = 4" "rgb_linesize split_ctx = 12"
  "ascii_width split_ctx = 4" "ascii_height split_ctx = 4" "rgb_data split_ctx = split_data"
  "num_threads split_ctx = 2"
  by (simp_all add: split_ctx_def init_luts_def)

lemma clamp_coord_range: "0 < n \<Longrightarrow> 0 \<le> clamp_coord s n \<and> clamp_coord s n < n"
  by (simp add: clamp_coord_def)

lemma clamp_coord_nearest: "0 < n \<Longrightarrow> clamp_coord s n = max 0 (min (n - 1) s)"
  by (simp add: clamp_coord_def max_def min_def)

lemma pixel_offset_range:
  assumes sx: "0 \<le> sx" "sx < dec_width ctx" and sy: "0 \<le> sy" "sy < dec_height ctx"
    and stride: "3 * dec_width ctx \<le> rgb_linesize ctx"
    and len: "rgb_linesize ctx * dec_height ctx \<le> int (length (rgb_data ctx))"
    and c: "0 \<le> c" "c < 3"
  shows "0 \<le> pixel_offset ctx sx sy + c \<and> nat (pixel_offset ctx sx sy + c) < length (rgb_data ctx)"
proof -
  let ?l = "rgb_linesize ctx"
  have l0: "0 \<le> ?l" using sx stride by linarith
  have "0 \<le> sy * ?l" using sy l0 by simp
  then have lo: "0 \<le> pixel_offset ctx sx sy + c"
    using sx c by (simp add: pixel_offset_def)
  have "(sy + 1) * ?l \<le> dec_height ctx * ?l"
    using sy l0 by (intro mult_right_mono) simp_all
  then have "sy * ?l + ?l \<le> ?l * dec_height ctx"
    by (simp add: algebra_simps)
  moreover have "sx * 3 + c < ?l" using sx c stride by linarith
  ultimately have "pixel_offset ctx sx sy + c < int (length (rgb_data ctx))"
    using len by (simp add: pixel_offset_def)
  with lo show ?thesis by simp
qed

text \<open>
  C5. Whatever the centre \<open>(source_x, source_y)\<close> of the window is (in particular the
  mapped coordinate of any output cell, on the border of the image or not), every one
  of the nine coordinates \<open>(sx, sy)\<close> that the Sobel loops read lies in
  \<open>[0, width) \<times> [0, height)\<close> of a source image with positive dimensions, and it is the
  valid coordinate nearest to \<open>(source_x + kx, source_y + ky)\<close> (edge replication). When
  a row stride holds a row's pixels and the buffer holds \<open>height\<close> rows, the three
  bytes read for the sample lie inside the buffer.
\<close>

theorem sobel_window_in_bounds:
  assumes w: "0 < dec_width ctx" and h: "0 < dec_height ctx"
    and s: "(ky, kx, sx, sy) \<in> set (sobel_samples ctx source_x source_y)"
  shows "0 \<le> sx \<and> sx < dec_width ctx \<and> 0 \<le> sy \<and> sy < dec_height ctx
    \<and> sx = max 0 (min (dec_width ctx - 1) (source_x + kx))
    \<and> sy = max 0 (min (dec_height ctx - 1) (source_y + ky))
    \<and> (3 * dec_width ctx \<le> rgb_linesize ctx
         \<and> rgb_linesize ctx * dec_height ctx \<le> int (length (rgb_data ctx)) \<longrightarrow>
        (\<forall>c. 0 \<le> c \<and> c < 3 \<longrightarrow>
           0 \<le> pixel_offset ctx sx sy + c \<and> nat (pixel_offset ctx sx sy + c) < length (rgb_data ctx)))"
proof -
  from s have sx: "sx = clamp_coord (source_x + kx) (dec_width ctx)"
    and sy: "sy = clamp_coord (source_y + ky) (dec_height ctx)"
    by (auto simp: sobel_samples_def)
  have rx: "0 \<le> sx \<and> sx < dec_width ctx"
    unfolding sx using w by (rule clamp_coord_range)
  have ry: "0 \<le> sy \<and> sy < dec_height ctx"
    unfolding sy using h by (rule clamp_coord_range)
  have nx: "sx = max 0 (min (dec_width ctx - 1) (source_x + kx))"
    unfolding sx using w by (rule clamp_coord_nearest)
  have ny: "sy = max 0 (min (dec_height ctx - 1) (source_y + ky))"
    unfolding sy using h by (rule clamp_coord_nearest)
  have mem: "0 \<le> pixel_offset ctx sx sy + c \<and> nat (pixel_offset ctx sx sy + c) < length (rgb_data ctx)"
    if "3 * dec_width ctx \<le> rgb_linesize ctx"
      "rgb_linesize ctx * dec_height ctx \<le> int (length (rgb_data ctx))" "0 \<le> c" "c < 3" for c
    using pixel_offset_range [of sx ctx sy c] rx ry that by blast
  show ?thesis using rx ry nx ny mem by blast
qed

text \<open>An instance: the top left sample of the window at the corner \<open>(0, 0)\<close> of the half-split frame.\<close>

theorem sobel_window_in_bounds_witness:
  "0 < dec_width split_ctx \<and> 0 < dec_height split_ctx
   \<and> (-1, -1, 0, 0) \<in> set (sobel_samples split_ctx 0 0)
   \<and> (0::int) = max 0 (min (dec_width split_ctx - 1) (0 + (-1)))
   \<and> nat (pixel_offset split_ctx 0 0 + 2) < length (rgb_data split_ctx)"
proof -
  have s: "(-1, -1, 0, 0) \<in> set (sobel_samples split_ctx 0 0)"
    by (simp add: sobel_samples_def clamp_coord_def split_ctx_fields)
  have w: "0 < dec_width split_ctx" and h: "0 < dec_height split_ctx"
    by (simp_all add: split_ctx_fields)
  from sobel_window_in_bounds [OF w h s] w h s show ?thesis
    by (simp add: split_ctx_fields split_data_def)
qed

section \<open>Rounding in the tile processor\<close>

text \<open>
  The rounding of binary32 shows in the mapped coordinate and in the luma. For the cell
  column 63 of 120 over a source 1920 wide the quotient \<open>63 / 120\<close> rounds down and the
  mapped column is 1007, where the exact value is 1008; likewise column 13 of 22 over a
  source 22 wide maps to 12. The luma of the pixel \<open>(150, 10, 20)\<close>, exactly 53, is
  \<open>52.99999...\<close> in binary32 and converts to 52.
\<close>

lemma source_coord_rounded: "source_coord 63 120 1920 = 1007" "source_coord 13 22 22 = 12"
  by code_simp+

lemma luma_rounded:
  "fadd (fadd (fmul (float32 0.299) (float_of_int 150)) (fmul (float32 0.587) (float_of_int 10)))
        (fmul (float32 0.114) (float_of_int 20)) = 13893631 / 262144"
  "c_int_of_float (13893631 / 262144) = 52"
  by code_simp+

section \<open>Glyph selection\<close>







lemma gamma_entry_zero: "gamma_entry 0 = 0"
  by (simp add: gamma_entry_def powf_def c_uint8_of_float_def c_int_of_float_def)

lemma ramp_entry_zero: "ramp_entry ramp ramp_len 0 = ramp ! 0"
  by (simp add: ramp_entry_def fdiv_def fmul_def float_of_int_def float32_zero c_int_of_float_def)





section \<open>Glyph selection away from the boundaries\<close>

text \<open>
  The sector test \<open>b > fabsf(a) * D_THRESH\<close> of the code agrees with the test
  \<open>b > a \<times> 2.41421356\<close> in exact arithmetic whenever the two sides of the latter differ
  by more than the fraction \<open>2\<^sup>-\<^sup>2\<^sup>1\<close>.
\<close>

lemma sector_test_margin:
  assumes a: "a = 0 \<or> 1 / 2 ^ 40 \<le> a"
  shows "a * 2.41421356 * (1 + 1 / 2 ^ 21) < b \<Longrightarrow> fmul a (5062973 / 2097152) < b"
    and "b \<le> a * 2.41421356 * (1 - 1 / 2 ^ 21) \<Longrightarrow> \<not> fmul a (5062973 / 2097152) < b"
proof -
  define p where "p = a * (5062973 / 2097152)"
  have a0: "0 \<le> a" using a by (auto intro: order_trans [of 0 "1 / 2 ^ 40"])
  have "p = 0 \<or> 1 / 2 ^ 126 \<le> p"
  proof (cases "a = 0")
    case True
    then show ?thesis by (simp add: p_def)
  next
    case False
    with a have "1 / 2 ^ 40 \<le> a" by blast
    then have "1 / 2 ^ 40 * (5062973 / 2097152) \<le> p" unfolding p_def by (simp add: mult_right_mono)
    moreover have "(1::real) / 2 ^ 126 \<le> 1 / 2 ^ 40 * (5062973 / 2097152)" by simp
    ultimately show ?thesis by linarith
  qed
  from float32_bounds [OF this]
  have lo: "p * (1 - 1 / 2 ^ 24) \<le> float32 p" and hi: "float32 p \<le> p * (1 + 1 / 2 ^ 24)" by blast+
  have f: "fmul a (5062973 / 2097152) = float32 p" by (simp add: fmul_def p_def)
  have c1: "(5062973 / 2097152 :: real) * (1 + 1 / 2 ^ 24) \<le> 2.41421356 * (1 + 1 / 2 ^ 21)" by simp
  have c2: "(2.41421356 :: real) * (1 - 1 / 2 ^ 21) \<le> 5062973 / 2097152 * (1 - 1 / 2 ^ 24)" by simp
  have u: "p * (1 + 1 / 2 ^ 24) \<le> a * 2.41421356 * (1 + 1 / 2 ^ 21)"
    using mult_left_mono [OF c1 a0] by (simp only: p_def mult.assoc)
  have l: "a * 2.41421356 * (1 - 1 / 2 ^ 21) \<le> p * (1 - 1 / 2 ^ 24)"
    using mult_left_mono [OF c2 a0] by (simp only: p_def mult.assoc)
  show "a * 2.41421356 * (1 + 1 / 2 ^ 21) < b \<Longrightarrow> fmul a (5062973 / 2097152) < b"
    using hi u unfolding f by linarith
  show "b \<le> a * 2.41421356 * (1 - 1 / 2 ^ 21) \<Longrightarrow> \<not> fmul a (5062973 / 2097152) < b"
    using lo l unfolding f by linarith
qed


text \<open>
  The squared magnitude of the code lies within three roundings of the exact
  \<open>(gx\<^sup>2 + gy\<^sup>2) / 255\<^sup>2\<close>.
\<close>

lemma binary32_mag_sq_bounds:
  assumes gx: "gx = 0 \<or> 1 / 2 ^ 40 \<le> \<bar>gx\<bar>" and gy: "gy = 0 \<or> 1 / 2 ^ 40 \<le> \<bar>gy\<bar>"
  shows "spec_mag_sq gx gy * ((1 - 1 / 2 ^ 24) * (1 - 1 / 2 ^ 24) * (1 - 1 / 2 ^ 24)) \<le> binary32_mag_sq gx gy
    \<and> binary32_mag_sq gx gy \<le> spec_mag_sq gx gy * ((1 + 1 / 2 ^ 24) * (1 + 1 / 2 ^ 24) * (1 + 1 / 2 ^ 24))"
proof -
  define G where "G = gx * gx"
  define H where "H = gy * gy"
  define g where "g = float32 G"
  define h where "h = float32 H"
  define s where "s = g + h"
  define q where "q = float32 s / 65025"
  define M where "M = (G + H) / 65025"
  have G0: "0 \<le> G" and H0: "0 \<le> H" by (simp_all add: G_def H_def)
  have Gr: "G = 0 \<or> 1 / 2 ^ 80 \<le> G" unfolding G_def using gx by (rule square_range)
  have Hr: "H = 0 \<or> 1 / 2 ^ 80 \<le> H" unfolding H_def using gy by (rule square_range)
  have small: "(1::real) / 2 ^ 126 \<le> 1 / 2 ^ 80" by simp
  have gb: "G * (1 - 1 / 2 ^ 24) \<le> g \<and> g \<le> G * (1 + 1 / 2 ^ 24)"
    unfolding g_def using Gr small by (intro float32_bounds) linarith
  have hb: "H * (1 - 1 / 2 ^ 24) \<le> h \<and> h \<le> H * (1 + 1 / 2 ^ 24)"
    unfolding h_def using Hr small by (intro float32_bounds) linarith
  have gr: "g = 0 \<or> 1 / 2 ^ 80 / 2 \<le> g" unfolding g_def using Gr small by (rule float32_range)
  have hr: "h = 0 \<or> 1 / 2 ^ 80 / 2 \<le> h" unfolding h_def using Hr small by (rule float32_range)
  have g0: "0 \<le> g" unfolding g_def using G0 by (rule float32_nonneg)
  have h0: "0 \<le> h" unfolding h_def using H0 by (rule float32_nonneg)
  have sr: "s = 0 \<or> 1 / 2 ^ 81 \<le> s" using gr hr g0 h0 by (auto simp: s_def)
  have sl: "(G + H) * (1 - 1 / 2 ^ 24) \<le> s" and sh: "s \<le> (G + H) * (1 + 1 / 2 ^ 24)"
    using gb hb by (simp_all add: s_def algebra_simps)
  have small2: "(1::real) / 2 ^ 126 \<le> 1 / 2 ^ 81" by simp
  have sr': "s = 0 \<or> 1 / 2 ^ 126 \<le> s" using sr small2 by linarith
  from float32_bounds_compose [OF sr' sl sh]
  have fl: "(G + H) * ((1 - 1 / 2 ^ 24) * (1 - 1 / 2 ^ 24)) \<le> float32 s"
    and fh: "float32 s \<le> (G + H) * ((1 + 1 / 2 ^ 24) * (1 + 1 / 2 ^ 24))" by blast+
  have fr: "float32 s = 0 \<or> 1 / 2 ^ 81 / 2 \<le> float32 s" using sr small2 by (rule float32_range)
  have qr: "q = 0 \<or> 1 / 2 ^ 126 \<le> q"
  proof (cases "float32 s = 0")
    case True
    then show ?thesis by (simp add: q_def)
  next
    case False
    with fr have "1 / 2 ^ 81 / 2 \<le> float32 s" by blast
    then have "1 / 2 ^ 81 / 2 / 65025 \<le> q" unfolding q_def by (simp add: divide_right_mono)
    moreover have "(1::real) / 2 ^ 126 \<le> 1 / 2 ^ 81 / 2 / 65025" by simp
    ultimately show ?thesis by linarith
  qed
  have ql: "M * ((1 - 1 / 2 ^ 24) * (1 - 1 / 2 ^ 24)) \<le> q"
    using fl by (simp add: q_def M_def divide_right_mono)
  have qh: "q \<le> M * ((1 + 1 / 2 ^ 24) * (1 + 1 / 2 ^ 24))"
    using fh by (simp add: q_def M_def divide_right_mono)
  from float32_bounds_compose [OF qr ql qh]
  have "M * ((1 - 1 / 2 ^ 24) * (1 - 1 / 2 ^ 24) * (1 - 1 / 2 ^ 24)) \<le> float32 q
    \<and> float32 q \<le> M * ((1 + 1 / 2 ^ 24) * (1 + 1 / 2 ^ 24) * (1 + 1 / 2 ^ 24))" .
  moreover have "binary32_mag_sq gx gy = float32 q"
    by (simp add: binary32_mag_sq_def fdiv_def fadd_def fmul_def q_def s_def g_def h_def G_def H_def)
  moreover have "spec_mag_sq gx gy = M"
    by (simp add: spec_mag_sq_def M_def G_def H_def power2_eq_square)
  ultimately show ?thesis by simp
qed


lemma flat_test_margin:
  assumes gx: "gx = 0 \<or> 1 / 2 ^ 40 \<le> \<bar>gx\<bar>" and gy: "gy = 0 \<or> 1 / 2 ^ 40 \<le> \<bar>gy\<bar>"
    and st: "strength = 0 \<or> 1 / 2 ^ 40 \<le> \<bar>strength\<bar>"
    and margin: "spec_mag_sq gx gy < strength\<^sup>2 * (1 - 1 / 2 ^ 21)
      \<or> strength\<^sup>2 * (1 + 1 / 2 ^ 21) \<le> spec_mag_sq gx gy"
  shows "(binary32_mag_sq gx gy < fmul strength strength) = (spec_mag_sq gx gy < strength\<^sup>2)"
proof -
  define S where "S = strength * strength"
  define M where "M = spec_mag_sq gx gy"
  define B where "B = binary32_mag_sq gx gy"
  have S0: "0 \<le> S" by (simp add: S_def)
  have M0: "0 \<le> M" by (simp add: M_def spec_mag_sq_def)
  have S2: "strength\<^sup>2 = S" by (simp add: S_def power2_eq_square)
  have "S = 0 \<or> 1 / 2 ^ 80 \<le> S" unfolding S_def using st by (rule square_range)
  moreover have "(1::real) / 2 ^ 126 \<le> 1 / 2 ^ 80" by simp
  ultimately have "S = 0 \<or> 1 / 2 ^ 126 \<le> S" by linarith
  from float32_bounds [OF this]
  have Sl: "S * (1 - 1 / 2 ^ 24) \<le> float32 S" and Sh: "float32 S \<le> S * (1 + 1 / 2 ^ 24)" by blast+
  from binary32_mag_sq_bounds [OF gx gy]
  have Bl: "M * ((1 - 1 / 2 ^ 24) * (1 - 1 / 2 ^ 24) * (1 - 1 / 2 ^ 24)) \<le> B"
    and Bh: "B \<le> M * ((1 + 1 / 2 ^ 24) * (1 + 1 / 2 ^ 24) * (1 + 1 / 2 ^ 24))"
    by (simp_all add: M_def B_def)
  have f: "fmul strength strength = float32 S" by (simp add: fmul_def S_def)
  from margin have "M < S * (1 - 1 / 2 ^ 21) \<or> S * (1 + 1 / 2 ^ 21) \<le> M"
    by (simp only: S2 M_def)
  then have "(B < float32 S) = (M < S)"
  proof
    assume m: "M < S * (1 - 1 / 2 ^ 21)"
    have c: "((1::real) - 1 / 2 ^ 21) * ((1 + 1 / 2 ^ 24) * (1 + 1 / 2 ^ 24) * (1 + 1 / 2 ^ 24))
        \<le> 1 - 1 / 2 ^ 24" by simp
    have "M * ((1 + 1 / 2 ^ 24) * (1 + 1 / 2 ^ 24) * (1 + 1 / 2 ^ 24))
        < S * (1 - 1 / 2 ^ 21) * ((1 + 1 / 2 ^ 24) * (1 + 1 / 2 ^ 24) * (1 + 1 / 2 ^ 24))"
      using m by (intro mult_strict_right_mono) simp_all
    also have "\<dots> \<le> S * (1 - 1 / 2 ^ 24)"
      using mult_left_mono [OF c S0] by (simp only: mult.assoc)
    finally have "B < float32 S" using Bh Sl by linarith
    moreover have "S * (1 - 1 / 2 ^ 21) \<le> S" using S0 by (simp add: algebra_simps)
    with m have "M < S" by linarith
    ultimately show ?thesis by simp
  next
    assume m: "S * (1 + 1 / 2 ^ 21) \<le> M"
    have c: "((1::real) + 1 / 2 ^ 24)
        \<le> (1 + 1 / 2 ^ 21) * ((1 - 1 / 2 ^ 24) * (1 - 1 / 2 ^ 24) * (1 - 1 / 2 ^ 24))" by simp
    have "S * (1 + 1 / 2 ^ 24)
        \<le> S * ((1 + 1 / 2 ^ 21) * ((1 - 1 / 2 ^ 24) * (1 - 1 / 2 ^ 24) * (1 - 1 / 2 ^ 24)))"
      using c S0 by (rule mult_left_mono)
    also have "\<dots> = S * (1 + 1 / 2 ^ 21) * ((1 - 1 / 2 ^ 24) * (1 - 1 / 2 ^ 24) * (1 - 1 / 2 ^ 24))"
      by (simp only: mult.assoc)
    also have "\<dots> \<le> M * ((1 - 1 / 2 ^ 24) * (1 - 1 / 2 ^ 24) * (1 - 1 / 2 ^ 24))"
      using m by (intro mult_right_mono) simp_all
    finally have "\<not> B < float32 S" using Bl Sh by linarith
    moreover have "S \<le> S * (1 + 1 / 2 ^ 21)" using S0 by (simp add: algebra_simps)
    with m have "\<not> M < S" by linarith
    ultimately show ?thesis by simp
  qed
  then show ?thesis by (simp only: f S2 M_def B_def)
qed

lemma sector_test_agrees:
  assumes a: "a = 0 \<or> 1 / 2 ^ 40 \<le> a"
    and margin: "a * 2.41421356 * (1 + 1 / 2 ^ 21) < b \<or> b \<le> a * 2.41421356 * (1 - 1 / 2 ^ 21)"
  shows "(b > fmul a (5062973 / 2097152)) = (b > a * 2.41421356)"
proof -
  have a0: "0 \<le> a" using a by (auto intro: order_trans [of 0 "1 / 2 ^ 40"])
  then have d0: "0 \<le> a * 2.41421356" by simp
  from margin show ?thesis
  proof
    assume m: "a * 2.41421356 * (1 + 1 / 2 ^ 21) < b"
    then have "fmul a (5062973 / 2097152) < b" by (rule sector_test_margin(1) [OF a])
    moreover have "a * 2.41421356 \<le> a * 2.41421356 * (1 + 1 / 2 ^ 21)"
      using d0 by (simp add: algebra_simps)
    with m have "a * 2.41421356 < b" by linarith
    ultimately show ?thesis by simp
  next
    assume m: "b \<le> a * 2.41421356 * (1 - 1 / 2 ^ 21)"
    then have "\<not> fmul a (5062973 / 2097152) < b" by (rule sector_test_margin(2) [OF a])
    moreover have "a * 2.41421356 * (1 - 1 / 2 ^ 21) \<le> a * 2.41421356"
      using d0 by (simp add: algebra_simps)
    with m have "\<not> a * 2.41421356 < b" by linarith
    ultimately show ?thesis by simp
  qed
qed

lemma sign_test_agrees:
  assumes gx: "gx = 0 \<or> 1 / 2 ^ 40 \<le> \<bar>gx\<bar>" and gy: "gy = 0 \<or> 1 / 2 ^ 40 \<le> \<bar>gy\<bar>"
  shows "(fmul gx gy > 0) = (gx * gy > 0)"
proof (cases "gx * gy > 0")
  case True
  then have "gx \<noteq> 0" "gy \<noteq> 0" by auto
  with gx gy have "1 / 2 ^ 40 \<le> \<bar>gx\<bar>" "1 / 2 ^ 40 \<le> \<bar>gy\<bar>" by blast+
  then have "(1 / 2 ^ 40) * (1 / 2 ^ 40) \<le> \<bar>gx\<bar> * \<bar>gy\<bar>" by (intro mult_mono) simp_all
  moreover have "\<bar>gx\<bar> * \<bar>gy\<bar> = gx * gy" using True by (simp add: abs_mult [symmetric])
  moreover have "(1::real) / 2 ^ 126 \<le> (1 / 2 ^ 40) * (1 / 2 ^ 40)" by simp
  ultimately have r: "gx * gy = 0 \<or> 1 / 2 ^ 126 \<le> gx * gy" by linarith
  from float32_bounds [OF r] have "gx * gy * (1 - 1 / 2 ^ 24) \<le> float32 (gx * gy)" by blast
  moreover have "0 < gx * gy * (1 - 1 / 2 ^ 24)" using True by simp
  ultimately show ?thesis using True by (simp add: fmul_def)
next
  case False
  then have "float32 (gx * gy) \<le> 0" by (intro float32_nonpos) simp
  with False show ?thesis by (simp add: fmul_def)
qed

text \<open>
  Away from the boundaries the classification of the code is that of the specification.
  When each of \<open>gx\<close>, \<open>gy\<close> and the edge strength is zero or of a magnitude between
  \<open>2\<^sup>-\<^sup>4\<^sup>0\<close> and \<open>2\<^sup>4\<^sup>0\<close>, where no operation of the classification underflows or
  overflows in binary32, and the two sides of each of the three comparisons differ by
  more than the fraction \<open>2\<^sup>-\<^sup>2\<^sup>1\<close>, rounding changes no test. The gradient of the
  half-split frame is such a case.
\<close>

lemma binary32_ramp_spec_ramp:
  assumes gx: "gx = 0 \<or> 1 / 2 ^ 40 \<le> \<bar>gx\<bar> \<and> \<bar>gx\<bar> \<le> 2 ^ 40"
    and gy: "gy = 0 \<or> 1 / 2 ^ 40 \<le> \<bar>gy\<bar> \<and> \<bar>gy\<bar> \<le> 2 ^ 40"
    and st: "strength = 0 \<or> 1 / 2 ^ 40 \<le> \<bar>strength\<bar> \<and> \<bar>strength\<bar> \<le> 2 ^ 40"
    and flat: "spec_mag_sq gx gy < strength\<^sup>2 * (1 - 1 / 2 ^ 21)
      \<or> strength\<^sup>2 * (1 + 1 / 2 ^ 21) \<le> spec_mag_sq gx gy"
    and vert: "\<bar>gx\<bar> * 2.41421356 * (1 + 1 / 2 ^ 21) < \<bar>gy\<bar>
      \<or> \<bar>gy\<bar> \<le> \<bar>gx\<bar> * 2.41421356 * (1 - 1 / 2 ^ 21)"
    and horz: "\<bar>gy\<bar> * 2.41421356 * (1 + 1 / 2 ^ 21) < \<bar>gx\<bar>
      \<or> \<bar>gx\<bar> \<le> \<bar>gy\<bar> * 2.41421356 * (1 - 1 / 2 ^ 21)"
  shows "binary32_ramp strength gx gy = spec_ramp strength gx gy"
proof -
  have x: "gx = 0 \<or> 1 / 2 ^ 40 \<le> \<bar>gx\<bar>" and y: "gy = 0 \<or> 1 / 2 ^ 40 \<le> \<bar>gy\<bar>"
    and e: "strength = 0 \<or> 1 / 2 ^ 40 \<le> \<bar>strength\<bar>"
    using gx gy st by blast+
  have ax: "\<bar>gx\<bar> = 0 \<or> 1 / 2 ^ 40 \<le> \<bar>gx\<bar>" and ay: "\<bar>gy\<bar> = 0 \<or> 1 / 2 ^ 40 \<le> \<bar>gy\<bar>"
    using x y by auto
  note f = flat_test_margin [OF x y e flat]
  note v = sector_test_agrees [OF ax vert]
  note h = sector_test_agrees [OF ay horz]
  note s = sign_test_agrees [OF x y]
  show ?thesis
    unfolding binary32_ramp_def spec_ramp_def by (simp only: f v h s)
qed

lemma split_binary32_ramp:
  "binary32_ramp (edge_strength default_config) (- 1020) 0
     = spec_ramp (edge_strength default_config) (- 1020) 0"
  unfolding edge_strength_default
  by (rule binary32_ramp_spec_ramp) (simp_all add: spec_mag_sq_def power2_eq_square)

section \<open>Glyph compositor: properties\<close>

text \<open>
  C9. When \<open>saturation_factor\<close> is 1.0 the saturation block of the compositor is skipped:
  the saturation stage returns every colour as it is, and the colour of the glyph is the
  brightness stage applied to the colour of the cell in the colour buffer.
\<close>

theorem saturation_one_identity:
  assumes "saturation_factor config = 1"
  shows "saturation_stage config (r, g, b) = (r, g, b)
    \<and> glyph_color config grid art_idx =
        brightness_stage config
          (colors grid (art_idx * 3 + 0), colors grid (art_idx * 3 + 1), colors grid (art_idx * 3 + 2))"
  using assms by (simp add: saturation_stage_def glyph_color_def)


text \<open>An instance: the default configuration, whose saturation factor is 1.\<close>

theorem saturation_one_identity_witness:
  "saturation_factor default_config = 1
   \<and> saturation_stage default_config (10, 200, 30) = (10, 200, 30)"
  using saturation_one_identity [of default_config 10 200 30]
  by (simp add: default_config_def)


section \<open>Lookup tables: properties\<close>

lemma gamma_real_power:
  assumes "0 < (x::real)"
  shows "(x powr (1 / 2.2) * 255) ^ 11 = x ^ 5 * 255 ^ 11"
proof -
  have e: "(1 / 2.2 :: real) = 5 / 11" by simp
  have pos: "0 < x powr (5 / 11)" using assms by simp
  have "(x powr (5 / 11)) ^ 11 = (x powr (5 / 11)) powr (real 11)"
    using pos by (rule powr_realpow [symmetric])
  also have "\<dots> = x powr (5 / 11 * real 11)" by (rule powr_powr)
  also have "5 / 11 * real 11 = real 5" by simp
  also have "x powr (real 5) = x ^ 5" using assms by (rule powr_realpow)
  finally have "(x powr (5 / 11)) ^ 11 = x ^ 5" .
  then show ?thesis unfolding e by (simp only: power_mult_distrib)
qed

text \<open>For level 1 the gamma-corrected value lies between 20.5 and 21.\<close>

lemma gamma_one_bounds:
  "41 / 2 \<le> (1 / 255) powr (1 / 2.2) * (255::real) \<and> (1 / 255) powr (1 / 2.2) * (255::real) < 21"
proof -
  define t :: real where "t = (1 / 255) powr (1 / 2.2) * 255"
  have "t ^ 11 = (1 / 255) ^ 5 * 255 ^ 11"
    unfolding t_def by (rule gamma_real_power) simp
  also have "\<dots> = 255 ^ 6" by (simp add: power_divide)
  finally have t: "t ^ 11 = 255 ^ 6" .
  have t0: "0 \<le> t" by (simp add: t_def)
  have "(41 / 2 :: real) ^ 11 \<le> 255 ^ 6" by (simp add: power_divide)
  then have "(41 / 2 :: real) ^ 11 \<le> t ^ 11" by (simp only: t)
  then have lo: "41 / 2 \<le> t" using t0 power_mono_iff [of "41 / 2" t 11] by simp
  have "(255::real) ^ 6 < 21 ^ 11" by simp
  then have "t ^ 11 < 21 ^ 11" by (simp only: t)
  then have hi: "t < 21" by (rule power_less_imp_less_base) simp
  show ?thesis using lo hi unfolding t_def by blast
qed

lemma gamma_entry_floor:
  assumes "i \<le> 255"
  shows "int (unat (gamma_entry i)) = \<lfloor>(real i / 255) powr (1 / 2.2) * 255\<rfloor>"
proof -
  define v :: real where "v = (real i / 255) powr (1 / 2.2) * 255"
  have "(real i / 255) powr (1 / 2.2) \<le> 1"
    using assms by (intro powr_le1) simp_all
  then have hi: "v \<le> 255" by (simp add: v_def)
  have lo: "0 \<le> v" by (simp add: v_def)
  have f: "0 \<le> \<lfloor>v\<rfloor> \<and> \<lfloor>v\<rfloor> < 256" using lo hi by (simp add: floor_less_iff)
  have "gamma_entry i = word_of_int \<lfloor>v\<rfloor>"
    using lo by (simp add: gamma_entry_def c_uint8_of_float_def c_int_of_float_def powf_def v_def)
  then have "int (unat (gamma_entry i)) = \<lfloor>v\<rfloor>"
    using f by (simp add: unat_eq_nat_uint uint_word_of_int take_bit_eq_mod)
  then show ?thesis by (simp only: v_def)
qed

lemma gamma_lut_nth: "i \<le> 255 \<Longrightarrow> gamma_lut (init_luts ctx) ! i = gamma_entry i"
  by (simp add: init_luts_def)

lemma gamma_lut_one: "int (unat (gamma_lut (init_luts ctx) ! 1)) = 20"
proof -
  have "int (unat (gamma_lut (init_luts ctx) ! 1)) = \<lfloor>(real 1 / 255) powr (1 / 2.2) * 255\<rfloor>"
    using gamma_entry_floor [of 1] gamma_lut_nth [of 1 ctx] by simp
  also have "\<dots> = 20"
    using gamma_one_bounds by (simp add: floor_eq_iff)
  finally show ?thesis .
qed

lemma round_gamma_one: "round (255 * (real 1 / 255) powr (1 / 2.2)) = 21"
proof -
  have "round ((1 / 255) powr (1 / 2.2) * (255::real)) = 21"
    using gamma_one_bounds unfolding round_def by (simp add: floor_eq_iff)
  then show ?thesis by (simp add: mult.commute)
qed

text \<open>
  C3, as the claim states it, fails: the entry for level 1 is 20, and
  \<open>round(255 \<times> (1/255)^(1/2.2))\<close> is 21.
\<close>

theorem gamma_lut_not_rounded:
  "\<not> (\<forall>ctx i. i \<le> 255 \<longrightarrow>
        int (unat (gamma_lut (init_luts ctx) ! i)) = round (255 * (real i / 255) powr (1 / 2.2)))"
proof
  assume "\<forall>ctx i. i \<le> 255 \<longrightarrow>
        int (unat (gamma_lut (init_luts ctx) ! i)) = round (255 * (real i / 255) powr (1 / 2.2))"
  then have "int (unat (gamma_lut (init_luts split_ctx) ! 1)) = round (255 * (real 1 / 255) powr (1 / 2.2))"
    by (simp del: of_nat_1)
  then show False
    by (simp only: gamma_lut_one round_gamma_one)
qed

text \<open>
  C3, amended. For every brightness level \<open>i\<close> in \<open>[0, 255]\<close> the gamma table entry that
  \<open>init_luts\<close> stores is \<open>\<lfloor>255 \<times> (i/255)^(1/2.2)\<rfloor>\<close>: the conversion to \<open>uint8_t\<close> truncates
  the gamma-corrected value, it does not round it to the nearest byte.
\<close>

theorem gamma_lut_truncated:
  assumes "i \<le> 255"
  shows "int (unat (gamma_lut (init_luts ctx) ! i)) = \<lfloor>255 * (real i / 255) powr (1 / 2.2)\<rfloor>"
  using gamma_entry_floor [OF assms] gamma_lut_nth [OF assms, of ctx]
  by (simp add: mult.commute)

text \<open>An instance: level 1, whose entry is 20.\<close>

theorem gamma_lut_truncated_witness:
  "(1::nat) \<le> 255
   \<and> int (unat (gamma_lut (init_luts split_ctx) ! 1)) = \<lfloor>255 * (real 1 / 255) powr (1 / 2.2)\<rfloor>
   \<and> int (unat (gamma_lut (init_luts split_ctx) ! 1)) = 20"
  using gamma_lut_truncated [of 1 split_ctx] gamma_lut_one [of split_ctx]
  by (simp del: of_nat_1)

section \<open>The vertical half-split frame: the boundary cell\<close>

lemma split_samples:
  "sobel_samples split_ctx 1 1 =
    [(-1, -1, 0, 0), (-1, 0, 1, 0), (-1, 1, 2, 0),
     (0, -1, 0, 1), (0, 0, 1, 1), (0, 1, 2, 1),
     (1, -1, 0, 2), (1, 0, 1, 2), (1, 1, 2, 2)]"
  by (simp add: sobel_samples_def split_ctx_fields clamp_coord_def)

text \<open>The luma of a black and of a white pixel, and sums of such lumas, are exact in binary32.\<close>

lemma luma_black:
  "fadd (fadd (fmul (float32 0.299) (float_of_int 0)) (fmul (float32 0.587) (float_of_int 0)))
        (fmul (float32 0.114) (float_of_int 0)) = 0"
  by code_simp

lemma luma_white:
  "fadd (fadd (fmul (float32 0.299) (float_of_int 255)) (fmul (float32 0.587) (float_of_int 255)))
        (fmul (float32 0.114) (float_of_int 255)) = 255"
  by code_simp

lemmas float_integer_simps =
  fadd_def fmul_def fdiv_def float_of_int_def float32_zero float32_one float32_neg_one
  float32_numeral float32_neg_numeral

lemma split_gradient: "sobel_gradient split_ctx 1 1 = (-1020, 0, 0)"
  unfolding sobel_gradient_def sobel_samples_def sobel_accumulate_def pixel_luma_def pixel_byte_def
    pixel_offset_def split_ctx_fields split_data_def
  by code_simp

lemma split_source: "source_coord 1 4 4 = 1"
  by code_simp

lemma split_luts:
  "gamma_lut split_ctx ! 0 = 0" "char_lut_horz split_ctx ! 0 = CHR ''-''"
  "char_lut_vert split_ctx ! 0 = CHR ''|''"
  by (simp_all add: split_ctx_def init_luts_def gamma_entry_zero ramp_entry_zero
      horizontal_ramp_def vertical_ramp_def)

text \<open>
  Whenever the vertical component of the gradient is zero and the horizontal one is
  not, an edge cell takes its character from the horizontal table.
\<close>

lemma select_char_gy_zero:
  assumes "gx \<noteq> 0" and "\<not> fdiv (fadd (fmul gx gx) 0) 65025 < strength_sq"
  shows "select_char ctx strength_sq gx 0 idx = char_lut_horz ctx ! unat idx"
proof -
  have "0 \<le> fmul \<bar>gx\<bar> D_THRESH"
    unfolding fmul_def D_THRESH_value by (intro float32_nonneg) simp
  then have "\<not> 0 > fmul \<bar>gx\<bar> D_THRESH" by simp
  then show ?thesis
    using assms by (simp add: select_char_def float_integer_simps)
qed

lemma split_mag_sq: "fdiv (fadd (fmul (- 1020) (- 1020)) 0) 65025 = 16"
  by (simp add: float_integer_simps)

lemma split_cell: "cell_char split_ctx default_config 1 1 = CHR ''-''"
proof -
  have "fmul (edge_strength default_config) (edge_strength default_config) < 16"
    unfolding edge_strength_default by code_simp
  then have "\<not> fdiv (fadd (fmul (- 1020) (- 1020)) 0) 65025
      < fmul (edge_strength default_config) (edge_strength default_config)"
    by (simp only: split_mag_sq)
  then have "select_char split_ctx (fmul (edge_strength default_config) (edge_strength default_config))
      (- 1020) 0 0 = char_lut_horz split_ctx ! unat (0 :: uint8_t)"
    by (intro select_char_gy_zero) simp_all
  then show ?thesis
    by (simp add: cell_char_def split_ctx_fields split_source split_gradient
        c_uint8_of_float_def c_int_of_float_def split_luts)
qed

text \<open>
  In any vertical half-split frame the gradient of a window that straddles the boundary
  is \<open>gx = -1020\<close>, \<open>gy = 0\<close>, and an edge cell there takes its character from the
  horizontal table. With the tables of \<open>init_luts\<close> that character is a glyph of the
  horizontal ramp and never one of the vertical ramp. The frame \<open>split_ctx\<close> is such a
  frame, and its cell \<open>(1, 1)\<close> straddles the boundary.
\<close>

lemma half_split_luma:
  assumes hs: "half_split ctx b"
  shows "pixel_luma ctx (clamp_coord s (dec_width ctx)) (clamp_coord t (dec_height ctx))
    = (if clamp_coord s (dec_width ctx) < b then 0 else 255)"
proof -
  have w: "0 < dec_width ctx" and h: "0 < dec_height ctx" using hs by (simp_all add: half_split_def)
  note rx = clamp_coord_range [OF w, of s] and ry = clamp_coord_range [OF h, of t]
  have "pixel_byte ctx (clamp_coord s (dec_width ctx)) (clamp_coord t (dec_height ctx)) c
      = (if clamp_coord s (dec_width ctx) < b then 0 else 255)" if "0 \<le> c" "c < 3" for c
    using hs rx ry that unfolding half_split_def by blast
  from this [of 0] this [of 1] this [of 2]
  have bytes: "pixel_byte ctx (clamp_coord s (dec_width ctx)) (clamp_coord t (dec_height ctx)) 0
        = (if clamp_coord s (dec_width ctx) < b then 0 else 255)"
      "pixel_byte ctx (clamp_coord s (dec_width ctx)) (clamp_coord t (dec_height ctx)) 1
        = (if clamp_coord s (dec_width ctx) < b then 0 else 255)"
      "pixel_byte ctx (clamp_coord s (dec_width ctx)) (clamp_coord t (dec_height ctx)) 2
        = (if clamp_coord s (dec_width ctx) < b then 0 else 255)"
    by simp_all
  have u: "uint (0 :: uint8_t) = 0" "uint (255 :: uint8_t) = 255" by simp_all
  show ?thesis
    unfolding pixel_luma_def bytes
    by (cases "clamp_coord s (dec_width ctx) < b") (simp_all only: if_True if_False u luma_black luma_white)
qed

lemma half_split_gradient:
  assumes hs: "half_split ctx b" and st: "straddles ctx b source_x"
  shows "fst (sobel_gradient ctx source_x source_y) = - 1020
    \<and> fst (snd (sobel_gradient ctx source_x source_y)) = 0"
proof -
  have l: "clamp_coord (source_x - 1) (dec_width ctx) < b"
    and r: "\<not> clamp_coord (source_x + 1) (dec_width ctx) < b"
    using st by (simp_all add: straddles_def)
  show ?thesis
    by (simp add: sobel_gradient_def sobel_samples_def sobel_accumulate_def sobel_x_def sobel_y_def
        half_split_luma [OF hs] l r float_integer_simps)
qed


lemma half_split_boundary_cell:
  assumes hs: "half_split ctx b"
    and st: "straddles ctx b (source_coord x (ascii_width ctx) (dec_width ctx))"
    and edge: "\<not> 16 < fmul (edge_strength config) (edge_strength config)"
  shows "\<exists>idx :: uint8_t. cell_char ctx config y x = char_lut_horz ctx ! unat idx"
proof -
  let ?sx = "source_coord x (ascii_width ctx) (dec_width ctx)"
  let ?sy = "source_coord y (ascii_height ctx) (dec_height ctx)"
  obtain gx gy cl where g: "sobel_gradient ctx ?sx ?sy = (gx, gy, cl)"
    by (cases "sobel_gradient ctx ?sx ?sy")
  from half_split_gradient [OF hs st, of ?sy] g have "gx = - 1020" "gy = 0" by simp_all
  moreover have "select_char ctx (fmul (edge_strength config) (edge_strength config)) (- 1020) 0
      (gamma_lut ctx ! unat (c_uint8_of_float cl))
      = char_lut_horz ctx ! unat (gamma_lut ctx ! unat (c_uint8_of_float cl))"
    using edge by (intro select_char_gy_zero) (simp_all add: split_mag_sq)
  ultimately have "cell_char ctx config y x
      = char_lut_horz ctx ! unat (gamma_lut ctx ! unat (c_uint8_of_float cl))"
    by (simp add: cell_char_def g)
  then show ?thesis by blast
qed

lemma split_ctx_half_split: "half_split split_ctx 2"
proof -
  have "pixel_byte split_ctx sx sy c = (if sx < 2 then 0 else 255)"
    if "0 \<le> sx" "sx < 4" "0 \<le> sy" "sy < 4" "0 \<le> c" "c < 3" for sx sy c
  proof -
    define k where "k = nat (sy * 12 + sx * 3 + c)"
    have k: "k < 48" using that by (simp add: k_def)
    have "int k mod 12 = sx * 3 + c" using that by (simp add: k_def) presburger
    then have "int (k mod 12) = sx * 3 + c" by (simp add: zmod_int)
    then have m: "(k mod 12 < 6) = (sx < 2)" using that by linarith
    have "pixel_byte split_ctx sx sy c = split_data ! k"
      by (simp add: pixel_byte_def pixel_offset_def split_ctx_fields k_def)
    also have "\<dots> = (if k mod 12 < 6 then 0 else 255)"
      using k by (simp add: split_data_def)
    finally show ?thesis by (simp add: m)
  qed
  then show ?thesis by (simp add: half_split_def split_ctx_fields)
qed

lemma split_ctx_straddles: "straddles split_ctx 2 (source_coord 1 (ascii_width split_ctx) (dec_width split_ctx))"
  by (simp add: straddles_def split_ctx_fields split_source clamp_coord_def)


lemma char_lut_horz_entry:
  "char_lut_horz (init_luts ctx) ! unat (idx :: uint8_t) \<in> set horizontal_ramp"
proof -
  define n where "n = unat idx"
  have i: "n < 256" unfolding n_def using unsigned_less [of idx] by simp
  define br where "br = fdiv (float_of_int (int n)) 255"
  define v where "v = fmul br (float_of_int (horizontal_ramp_len - 1))"
  have "float_of_int (int n) = real n"
    unfolding float_of_int_def using i float32_of_int [of "int n"] by simp
  then have "br = float32 (real n / 255)" by (simp add: br_def fdiv_def)
  moreover have "0 \<le> real n / 255 \<and> real n / 255 \<le> 1" using i by simp
  ultimately have br: "0 \<le> br \<and> br \<le> 1" using float32_unit_interval [of "real n / 255"] by simp
  have "v = float32 br"
    by (simp add: v_def horizontal_ramp_len_def fmul_def float_of_int_def float32_one)
  then have v: "0 \<le> v \<and> v \<le> 1" using br float32_unit_interval [of br] by simp
  have "char_lut_horz (init_luts ctx) ! n = ramp_entry horizontal_ramp horizontal_ramp_len n"
    using i by (simp add: init_luts_def)
  also have "\<dots> = horizontal_ramp ! nat \<lfloor>v\<rfloor>"
    using v by (simp add: ramp_entry_def c_int_of_float_def br_def v_def)
  finally have e: "char_lut_horz (init_luts ctx) ! n = horizontal_ramp ! nat \<lfloor>v\<rfloor>" .
  have fl: "\<lfloor>v\<rfloor> \<le> 1" using v by (simp add: floor_le_iff)
  have "nat \<lfloor>v\<rfloor> < 2" using fl by linarith
  moreover have "length horizontal_ramp = 2" by (simp add: horizontal_ramp_def)
  ultimately have "nat \<lfloor>v\<rfloor> < length horizontal_ramp" by (simp only:)
  then have "char_lut_horz (init_luts ctx) ! n \<in> set horizontal_ramp"
    unfolding e by (rule nth_mem)
  then show ?thesis by (simp only: n_def)
qed

lemma half_split_never_vertical:
  assumes hs: "half_split (init_luts ctx) b"
    and st: "straddles (init_luts ctx) b
      (source_coord x (ascii_width (init_luts ctx)) (dec_width (init_luts ctx)))"
    and edge: "\<not> 16 < fmul (edge_strength config) (edge_strength config)"
  shows "cell_char (init_luts ctx) config y x \<in> set horizontal_ramp
    \<and> cell_char (init_luts ctx) config y x \<notin> set vertical_ramp"
proof -
  from half_split_boundary_cell [OF hs st edge, of y]
  obtain idx :: uint8_t where "cell_char (init_luts ctx) config y x
      = char_lut_horz (init_luts ctx) ! unat idx" by blast
  then have "cell_char (init_luts ctx) config y x \<in> set horizontal_ramp"
    using char_lut_horz_entry [of ctx idx] by simp
  then show ?thesis by (auto simp: horizontal_ramp_def vertical_ramp_def)
qed

text \<open>
  C1. In the half-split frame the cell \<open>(1, 1)\<close> maps to the source pixel \<open>(1, 1)\<close>, whose
  window holds the black columns 0 and 1 and the white column 2: it straddles the
  boundary. Its gradient is \<open>gx = -1020\<close>, \<open>gy = 0\<close>, so it is an edge cell at the default
  edge strength 0.4, and the classification selects the horizontal ramp: the cell
  receives \<open>-\<close>, which is a glyph of the horizontal ramp and not one of the vertical ramp.
\<close>

theorem split_boundary_cell_horizontal:
  "sobel_gradient split_ctx (source_coord 1 (ascii_width split_ctx) (dec_width split_ctx))
      (source_coord 1 (ascii_height split_ctx) (dec_height split_ctx)) = (-1020, 0, 0)
   \<and> spec_ramp (edge_strength default_config) (-1020) 0 = Horizontal
   \<and> cell_char split_ctx default_config 1 1 = char_lut_horz split_ctx ! 0
   \<and> cell_char split_ctx default_config 1 1 = CHR ''-''
   \<and> CHR ''-'' \<in> set horizontal_ramp
   \<and> CHR ''-'' \<notin> set vertical_ramp"
proof -
  have "spec_ramp (edge_strength default_config) (-1020) 0 = Horizontal"
    by (simp add: spec_ramp_def spec_mag_sq_def edge_strength_default power2_eq_square)
  moreover have "CHR ''-'' \<in> set horizontal_ramp \<and> CHR ''-'' \<notin> set vertical_ramp"
    by (simp add: horizontal_ramp_def vertical_ramp_def)
  ultimately show ?thesis
    by (simp add: split_ctx_fields split_source split_gradient split_cell split_luts)
qed


section \<open>Frame orchestrator: properties\<close>

lemma set_concat_update:
  assumes "i < length pending" "pending ! i = c # cs"
  shows "set (concat pending) = insert c (set (concat (pending[i := cs])))"
proof -
  have p: "pending = take i pending @ (c # cs) # drop (Suc i) pending"
    using assms by (metis id_take_nth_drop)
  have u: "pending[i := cs] = take i pending @ cs # drop (Suc i) pending"
    using assms(1) by (rule upd_conv_take_nth_drop)
  have "set (concat pending) = set (concat (take i pending @ (c # cs) # drop (Suc i) pending))"
    using p by simp
  also have "\<dots> = insert c (set (concat (take i pending @ cs # drop (Suc i) pending)))"
    by auto
  finally show ?thesis by (simp only: u)
qed

text \<open>Whatever the schedule, the workers together run each pending iteration.\<close>

lemma run_workers_fold:
  "\<exists>cs. run_workers f schedule pending s = fold f cs s \<and> set cs = set (concat pending)"
proof (induction schedule arbitrary: pending s)
  case Nil
  show ?case by (rule exI [of _ "concat pending"]) simp
next
  case (Cons i schedule)
  show ?case
  proof (cases "i < length pending")
    case False
    with Cons.IH [of pending s] show ?thesis by simp
  next
    case True
    show ?thesis
    proof (cases "pending ! i")
      case Nil
      with True Cons.IH [of pending s] show ?thesis by simp
    next
      case next_cell: (Cons c cs)
      from Cons.IH [of "pending[i := cs]" "f c s"] obtain ds where
        ds: "run_workers f schedule (pending[i := cs]) (f c s) = fold f ds (f c s)"
          "set ds = set (concat (pending[i := cs]))" by blast
      have "run_workers f (i # schedule) pending s = fold f (c # ds) s"
        using True next_cell ds(1) by simp
      moreover have "set (c # ds) = set (concat pending)"
        using set_concat_update [OF True next_cell] ds(2) by simp
      ultimately show ?thesis by blast
    qed
  qed
qed


text \<open>
  With the empty schedule the workers run one after the other, each as
  \<open>process_slice_worker\<close> runs its loops.
\<close>

lemma run_workers_sequential:
  "run_workers (process_cell ctx config) [] (map (slice_cells ctx) args) grid
     = fold (process_slice_worker ctx config) args grid"
proof -
  have "fold (process_cell ctx config) (concat (map (slice_cells ctx) args)) g
      = fold (process_slice_worker ctx config) args g" for g
    by (induction args arbitrary: g) (simp_all add: process_slice_worker_def)
  then show ?thesis by simp
qed

lemma cell_index_decode:
  assumes "0 \<le> x" "x < (w::int)"
  shows "(i = y * w + x) = (i div w = y \<and> i mod w = x)"
proof
  assume "i = y * w + x"
  then show "i div w = y \<and> i mod w = x" using assms by simp
next
  assume "i div w = y \<and> i mod w = x"
  then show "i = y * w + x" using div_mult_mod_eq [of i w] by simp
qed

lemma color_index_decode:
  "(j = a * 3 + 0 \<or> j = a * 3 + 1 \<or> j = a * 3 + 2) = (j div 3 = (a::int))"
  by presburger

lemma chars_process_cell:
  "chars (process_cell ctx config (y, x) g) =
     (chars g)(y * ascii_width ctx + x := cell_char ctx config y x)"
  by (simp add: process_cell_def)

lemma update3_apply:
  "((m :: int \<Rightarrow> 'a)(a * 3 + 0 := c0, a * 3 + 1 := c1, a * 3 + 2 := c2)) j =
     (if j div 3 = a then (if j mod 3 = 0 then c0 else if j mod 3 = 1 then c1 else c2) else m j)"
proof -
  have d: "(j div 3 = a) = (j = a * 3 \<or> j = a * 3 + 1 \<or> j = a * 3 + 2)" by presburger
  have m: "j = a * 3 \<Longrightarrow> j mod 3 = 0" "j = a * 3 + 1 \<Longrightarrow> j mod 3 = 1"
    "j = a * 3 + 2 \<Longrightarrow> j mod 3 = 2" by presburger+
  show ?thesis
  proof (cases "j div 3 = a")
    case False
    with d show ?thesis by simp
  next
    case True
    with d consider "j = a * 3" | "j = a * 3 + 1" | "j = a * 3 + 2" by blast
    then show ?thesis
    proof cases
      case 1 with True m(1) show ?thesis by simp
    next
      case 2 with True m(2) show ?thesis by simp
    next
      case 3 with True m(3) show ?thesis by simp
    qed
  qed
qed

lemma colors_process_cell:
  "colors (process_cell ctx config (y, x) g) j =
     (if j div 3 = y * ascii_width ctx + x then cell_color ctx y x (j mod 3) else colors g j)"
proof -
  define a where "a = y * ascii_width ctx + x"
  have upd: "colors (process_cell ctx config (y, x) g) =
      (colors g)(a * 3 + 0 := cell_color ctx y x 0, a * 3 + 1 := cell_color ctx y x 1,
        a * 3 + 2 := cell_color ctx y x 2)"
    by (simp add: process_cell_def a_def Let_def)
  have "j mod 3 = 0 \<or> j mod 3 = 1 \<or> j mod 3 = 2" by presburger
  then have sel: "(if j mod 3 = 0 then cell_color ctx y x 0
      else if j mod 3 = 1 then cell_color ctx y x 1 else cell_color ctx y x 2)
      = cell_color ctx y x (j mod 3)"
    by auto
  have "colors (process_cell ctx config (y, x) g) j =
      (if j div 3 = a then cell_color ctx y x (j mod 3) else colors g j)"
    by (simp only: upd update3_apply sel)
  then show ?thesis by (simp only: a_def)
qed

lemma chars_fold_process_cell:
  assumes "\<forall>(y, x) \<in> set cs. 0 \<le> x \<and> x < ascii_width ctx"
  shows "chars (fold (process_cell ctx config) cs g) i =
     (if (i div ascii_width ctx, i mod ascii_width ctx) \<in> set cs
      then cell_char ctx config (i div ascii_width ctx) (i mod ascii_width ctx)
      else chars g i)"
  using assms
proof (induction cs arbitrary: g)
  case Nil
  show ?case by simp
next
  case (Cons c cs)
  obtain y x where c: "c = (y, x)" by (cases c)
  have x: "0 \<le> x" "x < ascii_width ctx" using Cons.prems c by auto
  have rest: "\<forall>(y, x) \<in> set cs. 0 \<le> x \<and> x < ascii_width ctx" using Cons.prems by auto
  have here: "(i = y * ascii_width ctx + x) = ((i div ascii_width ctx, i mod ascii_width ctx) = c)"
    using cell_index_decode [OF x, of i y] c by simp
  show ?case
    using Cons.IH [OF rest, of "process_cell ctx config c g"] here
    by (auto simp: c chars_process_cell)
qed

lemma colors_fold_process_cell:
  assumes "\<forall>(y, x) \<in> set cs. 0 \<le> x \<and> x < ascii_width ctx"
  shows "colors (fold (process_cell ctx config) cs g) j =
     (if (j div 3 div ascii_width ctx, j div 3 mod ascii_width ctx) \<in> set cs
      then cell_color ctx (j div 3 div ascii_width ctx) (j div 3 mod ascii_width ctx) (j mod 3)
      else colors g j)"
  using assms
proof (induction cs arbitrary: g)
  case Nil
  show ?case by simp
next
  case (Cons c cs)
  obtain y x where c: "c = (y, x)" by (cases c)
  have x: "0 \<le> x" "x < ascii_width ctx" using Cons.prems c by auto
  have rest: "\<forall>(y, x) \<in> set cs. 0 \<le> x \<and> x < ascii_width ctx" using Cons.prems by auto
  have here: "(j div 3 = y * ascii_width ctx + x)
      = ((j div 3 div ascii_width ctx, j div 3 mod ascii_width ctx) = c)"
    using cell_index_decode [OF x, of "j div 3" y] c by simp
  show ?case
    using Cons.IH [OF rest, of "process_cell ctx config c g"] here
    by (auto simp: c colors_process_cell)
qed

lemma set_slice_cells:
  "set (slice_cells ctx a) = {(y, x). y \<in> band_rows a \<and> 0 \<le> x \<and> x < ascii_width ctx}"
  by (auto simp: slice_cells_def band_rows_def)

lemma set_all_cells:
  assumes h: "0 \<le> h" and n: "0 < n"
  shows "set (concat (map (slice_cells ctx) (worker_args h n)))
    = {(y, x). 0 \<le> y \<and> y < h \<and> 0 \<le> x \<and> x < ascii_width ctx}"
proof -
  have "set (concat (map (slice_cells ctx) (worker_args h n)))
      = (\<Union>a \<in> set (worker_args h n). set (slice_cells ctx a))" by simp
  also have "\<dots> = (\<Union>k < nat n. set (slice_cells ctx (worker_args h n ! k)))"
    by (auto simp: set_conv_nth length_worker_args)
  also have "\<dots> = {(y, x). y \<in> (\<Union>k < nat n. band_rows (worker_args h n ! k))
      \<and> 0 \<le> x \<and> x < ascii_width ctx}"
    by (auto simp: set_slice_cells)
  also have "\<dots> = {(y, x). 0 \<le> y \<and> y < h \<and> 0 \<le> x \<and> x < ascii_width ctx}"
    by (simp only: bands_union [OF h n]) auto
  finally show ?thesis .
qed


lemma row_of_index:
  assumes w: "0 < (w::int)" and i: "0 \<le> i" "i < w * h"
  shows "0 \<le> i div w \<and> i div w < h \<and> 0 \<le> i mod w \<and> i mod w < w"
proof -
  have d: "0 \<le> i div w" using w i by (simp add: pos_imp_zdiv_nonneg_iff)
  have "i div w < h"
  proof (rule ccontr)
    assume "\<not> i div w < h"
    then have "h * w \<le> (i div w) * w" using w by (intro mult_right_mono) simp_all
    moreover have "(i div w) * w \<le> i"
      using div_mult_mod_eq [of i w] pos_mod_sign [OF w, of i] by linarith
    ultimately show False using i by (simp add: mult.commute)
  qed
  with d w show ?thesis by simp
qed

lemma run_workers_contents:
  assumes w: "0 < ascii_width c" and h: "0 < ascii_height c" and n: "1 \<le> num_threads c"
  shows "buffer_contents c
      (run_workers (process_cell c config) schedule
        (map (slice_cells c) (worker_args (ascii_height c) (num_threads c))) grid)
    = cell_grid c config"
proof -
  let ?pending = "map (slice_cells c) (worker_args (ascii_height c) (num_threads c))"
  let ?w = "ascii_width c" and ?h = "ascii_height c"
  obtain cs where cs: "run_workers (process_cell c config) schedule ?pending grid
      = fold (process_cell c config) cs grid" "set cs = set (concat ?pending)"
    using run_workers_fold [of "process_cell c config" schedule ?pending grid] by blast
  have all: "set cs = {(y, x). 0 \<le> y \<and> y < ?h \<and> 0 \<le> x \<and> x < ?w}"
    using cs(2) set_all_cells [of ?h "num_threads c" c] h n by simp
  then have range: "\<forall>(y, x) \<in> set cs. 0 \<le> x \<and> x < ?w" by auto
  have ch: "chars (fold (process_cell c config) cs grid) i = cell_char c config (i div ?w) (i mod ?w)"
    if "i \<in> {0..?w * ?h - 1}" for i
  proof -
    have "0 \<le> i" "i < ?w * ?h" using that by simp_all
    from row_of_index [OF w this] have "(i div ?w, i mod ?w) \<in> set cs" by (simp add: all)
    then show ?thesis by (simp add: chars_fold_process_cell [OF range])
  qed
  have co: "colors (fold (process_cell c config) cs grid) j
      = cell_color c (j div 3 div ?w) (j div 3 mod ?w) (j mod 3)"
    if "j \<in> {0..?w * ?h * 3 - 1}" for j
  proof -
    have "0 \<le> j div 3" "j div 3 < ?w * ?h" using that by auto
    from row_of_index [OF w this] have "(j div 3 div ?w, j div 3 mod ?w) \<in> set cs"
      by (simp add: all)
    then show ?thesis by (simp add: colors_fold_process_cell [OF range])
  qed
  have "map (chars (fold (process_cell c config) cs grid)) [0..?w * ?h - 1]
      = map (\<lambda>i. cell_char c config (i div ?w) (i mod ?w)) [0..?w * ?h - 1]"
    by (rule map_cong [OF refl]) (simp add: ch)
  moreover have "map (colors (fold (process_cell c config) cs grid)) [0..?w * ?h * 3 - 1]
      = map (\<lambda>j. cell_color c (j div 3 div ?w) (j div 3 mod ?w) (j mod 3)) [0..?w * ?h * 3 - 1]"
    by (rule map_cong [OF refl]) (simp add: co)
  ultimately show ?thesis
    by (simp only: buffer_contents_def cell_grid_def cs(1))
qed

lemma alloc_frame_buffers_fields:
  "ascii_width (alloc_frame_buffers ctx) = ascii_width ctx"
  "ascii_height (alloc_frame_buffers ctx) = ascii_height ctx"
  "num_threads (alloc_frame_buffers ctx) = num_threads ctx"
  by (simp_all add: alloc_frame_buffers_def Let_def split: prod.splits)

lemma align16_ge: "n \<le> align16 n"
  by (simp add: align16_def)

lemma unat_size_t_of_int:
  assumes "0 \<le> k" "k < 2 ^ 64"
  shows "unat (size_t_of_int k) = nat k"
proof -
  have "uint (word_of_int k :: size_t) = k mod 2 ^ 64"
    by (simp add: uint_word_of_int take_bit_eq_mod)
  also have "\<dots> = k" using assms by simp
  finally show ?thesis by (simp add: size_t_of_int_def unat_eq_nat_uint)
qed

text \<open>
  The two buffers of a frame do not overlap. For a grid with positive dimensions in an
  arena of at most \<open>2^32\<close> bytes (\<open>engine_init\<close> makes it 64 MiB), when both allocations
  succeed the character buffer starts at the start of the arena, the colour buffer
  starts \<open>align16 (width * height)\<close> bytes later, which is past the last character,
  and the colour bytes end inside the arena. This is why \<open>Grid\<close> keeps the two arrays
  apart.
\<close>

lemma frame_buffers_layout:
  assumes w: "0 < ascii_width ctx" "ascii_width ctx < 2 ^ 31"
    and h: "0 < ascii_height ctx" "ascii_height ctx < 2 ^ 31"
    and cap: "unat (size_bytes (frame_arena ctx)) \<le> 2 ^ 32"
    and cb: "char_buffer (alloc_frame_buffers ctx) = Some cb"
    and colb: "color_buffer (alloc_frame_buffers ctx) = Some colb"
  shows "cb = start (frame_arena ctx)
    \<and> colb = cb + word_of_nat (align16 (nat (ascii_width ctx * ascii_height ctx)))
    \<and> nat (ascii_width ctx * ascii_height ctx) \<le> align16 (nat (ascii_width ctx * ascii_height ctx))
    \<and> align16 (nat (ascii_width ctx * ascii_height ctx)) + 3 * nat (ascii_width ctx * ascii_height ctx)
        \<le> unat (size_bytes (frame_arena ctx))"
proof -
  define a0 where "a0 = arena_reset (frame_arena ctx)"
  define n where "n = nat (ascii_width ctx * ascii_height ctx)"
  define sz where "sz = size_t_of_int (ascii_width ctx) * size_t_of_int (ascii_height ctx)"
  have a0: "used a0 = 0" "size_bytes a0 = size_bytes (frame_arena ctx)" "start a0 = start (frame_arena ctx)"
    by (simp_all add: a0_def arena_reset_def)
  have "ascii_width ctx * ascii_height ctx \<le> 2 ^ 31 * 2 ^ 31"
    using w h by (intro mult_mono) simp_all
  then have k: "0 \<le> ascii_width ctx * ascii_height ctx" "ascii_width ctx * ascii_height ctx < 2 ^ 64"
    using w h by simp_all
  have "sz = size_t_of_int (ascii_width ctx * ascii_height ctx)"
    by (simp add: sz_def size_t_of_int_def)
  then have usz: "unat sz = n"
    using unat_size_t_of_int [OF k] by (simp add: n_def)
  have n62: "n \<le> 2 ^ 62"
    using \<open>ascii_width ctx * ascii_height ctx \<le> 2 ^ 31 * 2 ^ 31\<close> by (simp add: n_def nat_le_iff)
  have first: "arena_alloc a0 sz =
      (if align16 n \<le> unat (size_bytes a0) - unat (used a0)
       then (Some (start a0 + used a0), a0\<lparr>used := used a0 + word_of_nat (align16 n)\<rparr>)
       else (None, a0))"
    using arena_alloc_in_range [of a0 sz] a0 cap n62 by (simp add: usz)
  have res: "alloc_frame_buffers ctx =
      (case arena_alloc a0 sz of (cb, a1) \<Rightarrow> case arena_alloc a1 (sz * 3) of (colb, a2) \<Rightarrow>
         ctx\<lparr>frame_arena := a2, char_buffer := cb, color_buffer := colb\<rparr>)"
    by (simp add: alloc_frame_buffers_def Let_def a0_def sz_def)
  have fits: "align16 n \<le> unat (size_bytes a0)"
  proof (rule ccontr)
    assume "\<not> align16 n \<le> unat (size_bytes a0)"
    then have "arena_alloc a0 sz = (None, a0)" using first a0 by simp
    then have "char_buffer (alloc_frame_buffers ctx) = None"
      by (simp add: res split: prod.splits)
    with cb show False by simp
  qed
  define a1 where "a1 = a0\<lparr>used := word_of_nat (align16 n)\<rparr>"
  have one: "arena_alloc a0 sz = (Some (start a0), a1)"
    using first fits a0 by (simp add: a1_def)
  have small: "align16 n \<le> 2 ^ 32" using fits cap a0 by simp
  then have n32: "n \<le> 2 ^ 32" using align16_ge [of n] by linarith
  have ua1: "unat (used a1) = align16 n"
    using small by (simp add: a1_def unat_of_nat)
  have inv1: "used a1 \<le> size_bytes a1"
    using fits ua1 by (simp add: word_le_nat_alt a1_def)
  have "unat (sz * 3) = unat sz * unat (3 :: size_t)"
    using n32 usz by (intro unat_mult_lem [THEN iffD1]) simp
  then have usz3: "unat (sz * 3) = 3 * n" by (simp add: usz)
  have second: "arena_alloc a1 (sz * 3) =
      (if align16 (3 * n) \<le> unat (size_bytes a1) - unat (used a1)
       then (Some (start a1 + used a1), a1\<lparr>used := used a1 + word_of_nat (align16 (3 * n))\<rparr>)
       else (None, a1))"
    using arena_alloc_in_range [OF inv1, of "sz * 3"] n32 cap a0 by (simp add: usz3 a1_def)
  have fits2: "align16 (3 * n) \<le> unat (size_bytes a1) - unat (used a1)"
  proof (rule ccontr)
    assume "\<not> align16 (3 * n) \<le> unat (size_bytes a1) - unat (used a1)"
    then have "arena_alloc a1 (sz * 3) = (None, a1)" using second by simp
    then have "color_buffer (alloc_frame_buffers ctx) = None"
      by (simp add: res one)
    with colb show False by simp
  qed
  have "char_buffer (alloc_frame_buffers ctx) = Some (start a0)"
    by (simp add: res one split: prod.splits)
  with cb have c1: "cb = start (frame_arena ctx)" by (simp add: a0)
  have "color_buffer (alloc_frame_buffers ctx) = Some (start a1 + used a1)"
    using second fits2 by (simp add: res one)
  with colb have c2: "colb = cb + word_of_nat (align16 n)"
    by (simp add: a1_def a0 c1)
  have "3 * n \<le> align16 (3 * n)" by (rule align16_ge)
  moreover have "unat (size_bytes a1) = unat (size_bytes (frame_arena ctx))"
    by (simp add: a1_def a0)
  moreover have "align16 n \<le> unat (size_bytes (frame_arena ctx))"
    using fits a0(2) by simp
  ultimately have c4: "align16 n + 3 * n \<le> unat (size_bytes (frame_arena ctx))"
    using fits2 ua1 by linarith
  show ?thesis using c1 c2 align16_ge [of n] c4 by (simp add: n_def)
qed

text \<open>
  C7. For a grid with positive dimensions and a worker count of at least 1, the
  contents of the character and colour buffers after \<open>engine_process_frame_to_ascii\<close>
  are the same for every schedule of the workers and for every prior content of the
  buffers' memory: processing the same frame twice with the same context and
  configuration gives byte-identical buffers (or fails in the allocation both times).
  When the frame is processed, the buffers hold for each cell the character and the
  colour that the loop body computes from the source pixels, the configuration and the
  lookup tables (\<open>cell_grid\<close>).
\<close>

theorem frame_transform_deterministic:
  assumes w: "0 < ascii_width ctx" and h: "0 < ascii_height ctx" and n: "1 \<le> num_threads ctx"
  shows "frame_output (engine_process_frame_to_ascii sws_scale schedule ctx frame config grid)
       = frame_output (engine_process_frame_to_ascii sws_scale schedule' ctx frame config grid')
    \<and> (\<forall>c a g. engine_process_frame_to_ascii sws_scale schedule ctx frame config grid
          = Frame_done c a g \<longrightarrow> buffer_contents c g = cell_grid c config)"
proof -
  define c where "c = (alloc_frame_buffers ctx)\<lparr>rgb_data := sws_scale frame\<rparr>"
  have f: "0 < ascii_width c" "0 < ascii_height c" "1 \<le> num_threads c"
    using w h n by (simp_all add: c_def alloc_frame_buffers_fields)
  have out: "frame_output (engine_process_frame_to_ascii sws_scale s ctx frame config g)
      = (if char_buffer (alloc_frame_buffers ctx) = None \<or> color_buffer (alloc_frame_buffers ctx) = None
         then None else Some (cell_grid c config))" for s g
    using run_workers_contents [OF f, of config s g]
    by (simp add: engine_process_frame_to_ascii_def Let_def c_def)
  have "buffer_contents c' g = cell_grid c' config"
    if "engine_process_frame_to_ascii sws_scale schedule ctx frame config grid = Frame_done c' a g"
    for c' a g
  proof -
    from that have "c' = c"
      and "g = run_workers (process_cell c config) schedule
          (map (slice_cells c) (worker_args (ascii_height c) (num_threads c))) grid"
      by (auto simp: engine_process_frame_to_ascii_def Let_def c_def split: if_splits)
    then show ?thesis using run_workers_contents [OF f] by simp
  qed
  then show ?thesis by (simp add: out)
qed


text \<open>An instance: the half-split frame under two schedules and two prior memory contents.\<close>

theorem frame_transform_deterministic_witness:
  "0 < ascii_width split_ctx \<and> 0 < ascii_height split_ctx \<and> 1 \<le> num_threads split_ctx
   \<and> frame_output (engine_process_frame_to_ascii (\<lambda>u::unit. split_data) [1, 0, 1] split_ctx ()
         default_config blank_grid)
     = frame_output (engine_process_frame_to_ascii (\<lambda>u::unit. split_data) [] split_ctx ()
         default_config (blank_grid\<lparr>chars := \<lambda>i. CHR ''x''\<rparr>))"
proof -
  have "0 < ascii_width split_ctx" "0 < ascii_height split_ctx" "1 \<le> num_threads split_ctx"
    by (simp_all add: split_ctx_fields)
  from frame_transform_deterministic [OF this, where sws_scale = "\<lambda>u::unit. split_data"
      and schedule = "[1, 0, 1]" and schedule' = "[]" and frame = "()" and config = default_config
      and grid = blank_grid and grid' = "blank_grid\<lparr>chars := \<lambda>i. CHR ''x''\<rparr>"]
  show ?thesis
    by (simp add: split_ctx_fields)
qed

lemma arena_alloc_zero: "arena_alloc (arena_reset a) 0 = (Some (start a), arena_reset a)"
  by (simp add: arena_alloc_def arena_reset_def)

lemma alloc_frame_buffers_zero:
  assumes "ascii_width ctx = 0 \<or> ascii_height ctx = 0"
  shows "char_buffer (alloc_frame_buffers ctx) = Some (start (frame_arena ctx))
    \<and> color_buffer (alloc_frame_buffers ctx) = Some (start (frame_arena ctx))"
proof -
  have "size_t_of_int (ascii_width ctx) * size_t_of_int (ascii_height ctx) = 0"
    using assms by (auto simp: size_t_of_int_def)
  then show ?thesis
    by (simp add: alloc_frame_buffers_def Let_def arena_alloc_zero)
qed

lemma c_div_nonpos:
  assumes "h \<le> 0" "0 < n"
  shows "c_div h n = - ((- h) div n)"
  using assms by (cases "h = 0") (simp_all add: c_div_def)

lemma band_empty_nonpos_height:
  assumes h: "h \<le> 0" and n: "0 < n" and i: "0 \<le> i" "i \<le> n - 1"
  shows "end_row (thread_args h n i) \<le> start_row (thread_args h n i)"
proof -
  define q where "q = (- h) div n"
  have q0: "0 \<le> q" using h n by (simp add: q_def pos_imp_zdiv_nonneg_iff)
  have r: "c_div h n = - q" using c_div_nonpos [OF h n] by (simp add: q_def)
  have "(n - 1) * q \<le> - h"
    unfolding q_def using last_start_le [of "- h" n] h n by simp
  then have lst: "h \<le> (n - 1) * (- q)" by (simp add: algebra_simps)
  have "(i + 1) * (- q) \<le> i * (- q)" using q0 by (simp add: algebra_simps)
  with lst show ?thesis
    by (simp add: thread_args_def Let_def r)
qed

lemma slice_cells_empty:
  assumes "ascii_width ctx \<le> 0 \<or> end_row a \<le> start_row a"
  shows "slice_cells ctx a = []"
  using assms by (auto simp: slice_cells_def)

lemma no_cells_invalid_geometry:
  assumes geo: "ascii_width ctx \<le> 0 \<or> h \<le> 0" and n: "1 \<le> n"
  shows "concat (map (slice_cells ctx) (worker_args h n)) = []"
proof -
  have "slice_cells ctx a = []" if "a \<in> set (worker_args h n)" for a
  proof -
    from that obtain i where i: "0 \<le> i" "i \<le> n - 1" and a: "a = thread_args h n i"
      by (auto simp: worker_args_def)
    show ?thesis
    proof (cases "ascii_width ctx \<le> 0")
      case True
      then show ?thesis by (simp add: slice_cells_empty)
    next
      case False
      with geo have "h \<le> 0" by simp
      from band_empty_nonpos_height [OF this _ i] n a show ?thesis
        by (simp add: slice_cells_empty)
    qed
  qed
  then show ?thesis by simp
qed

lemma run_workers_no_cells:
  assumes "concat pending = []"
  shows "run_workers f schedule pending s = s"
proof -
  obtain cs where cs: "run_workers f schedule pending s = fold f cs s"
      "set cs = set (concat pending)"
    using run_workers_fold [of f schedule pending s] by blast
  from cs(2) have "set cs = {}" by (simp only: assms list.set)
  then have "cs = []" by simp
  with cs(1) show ?thesis by simp
qed

lemma invalid_geometry_outcome:
  assumes geo: "ascii_width ctx \<le> 0 \<or> ascii_height ctx \<le> 0" and n: "1 \<le> num_threads ctx"
  shows "engine_process_frame_to_ascii sws_scale schedule ctx frame config grid =
      (if char_buffer (alloc_frame_buffers ctx) = None \<or> color_buffer (alloc_frame_buffers ctx) = None
       then Allocation_failed (alloc_frame_buffers ctx)
       else Frame_done ((alloc_frame_buffers ctx)\<lparr>rgb_data := sws_scale frame\<rparr>)
              (worker_args (ascii_height ctx) (num_threads ctx)) grid)"
proof -
  define c where "c = (alloc_frame_buffers ctx)\<lparr>rgb_data := sws_scale frame\<rparr>"
  have f: "ascii_width c = ascii_width ctx" "ascii_height c = ascii_height ctx"
    "num_threads c = num_threads ctx"
    by (simp_all add: c_def alloc_frame_buffers_fields)
  have "concat (map (slice_cells c) (worker_args (ascii_height ctx) (num_threads ctx))) = []"
    using no_cells_invalid_geometry [of c "ascii_height ctx" "num_threads ctx"] geo n f by simp
  then have run: "run_workers (process_cell c config) schedule
      (map (slice_cells c) (worker_args (ascii_height ctx) (num_threads ctx))) grid = grid"
    by (rule run_workers_no_cells)
  then show ?thesis
    by (simp add: engine_process_frame_to_ascii_def Let_def c_def alloc_frame_buffers_fields)
qed

lemma zero_height_args:
  "worker_args 0 2 = [\<lparr>start_row = 0, end_row = 0\<rparr>, \<lparr>start_row = 0, end_row = 0\<rparr>]"
  by code_simp

lemma zero_height_ctx_fields:
  "ascii_width zero_height_ctx = 4" "ascii_height zero_height_ctx = 0"
  "num_threads zero_height_ctx = 2" "start (frame_arena zero_height_ctx) = 4096"
  by (simp_all add: zero_height_ctx_def engine_update_output_dims_def split_ctx_def init_luts_def)

text \<open>
  C8, as the claim states it, fails. With an output height of 0 (width 4, two workers)
  frame processing does not report an error: both allocations succeed with size 0
  (at the same address), the rows are partitioned into two empty bands and two
  workers are created and joined.
\<close>

theorem zero_height_frame_launches_workers:
  "ascii_height zero_height_ctx \<le> 0
   \<and> engine_process_frame_to_ascii (\<lambda>u::unit. split_data) [] zero_height_ctx () default_config blank_grid
       = Frame_done ((alloc_frame_buffers zero_height_ctx)\<lparr>rgb_data := split_data\<rparr>)
           [\<lparr>start_row = 0, end_row = 0\<rparr>, \<lparr>start_row = 0, end_row = 0\<rparr>] blank_grid
   \<and> char_buffer (alloc_frame_buffers zero_height_ctx) = Some 4096
   \<and> color_buffer (alloc_frame_buffers zero_height_ctx) = Some 4096"
proof -
  have z: "ascii_width zero_height_ctx = 0 \<or> ascii_height zero_height_ctx = 0"
    by (simp add: zero_height_ctx_fields)
  have "ascii_width zero_height_ctx \<le> 0 \<or> ascii_height zero_height_ctx \<le> 0"
    "1 \<le> num_threads zero_height_ctx"
    by (simp_all add: zero_height_ctx_fields)
  from invalid_geometry_outcome [OF this] alloc_frame_buffers_zero [OF z]
  show ?thesis
    by (simp add: zero_height_ctx_fields zero_height_args)
qed

text \<open>
  C8, amended. Zero or negative output grid dimensions are not checked by the frame
  orchestrator. With a zero width or a zero height (and a worker count \<open>n \<ge> 1\<close>) the two
  arena allocations succeed, the rows are partitioned and all \<open>n\<close> workers are created
  and joined. For every invalid geometry (width \<open>\<le> 0\<close> or height \<open>\<le> 0\<close>), whenever frame
  processing gets past the allocations it creates \<open>n\<close> workers with the bands of the
  partition, and none of them stores a cell: the buffers are left as they were. The
  division of the band sizing is by the worker count, not by a grid dimension.
\<close>

theorem invalid_geometry_not_rejected:
  assumes geo: "ascii_width ctx \<le> 0 \<or> ascii_height ctx \<le> 0" and n: "1 \<le> num_threads ctx"
  shows "(ascii_width ctx = 0 \<or> ascii_height ctx = 0 \<longrightarrow>
           (\<exists>c. engine_process_frame_to_ascii sws_scale schedule ctx frame config grid
              = Frame_done c (worker_args (ascii_height ctx) (num_threads ctx)) grid))
    \<and> (\<forall>c a g. engine_process_frame_to_ascii sws_scale schedule ctx frame config grid
          = Frame_done c a g \<longrightarrow>
          a = worker_args (ascii_height ctx) (num_threads ctx)
          \<and> length a = nat (num_threads ctx) \<and> g = grid)"
proof -
  note res = invalid_geometry_outcome [OF geo n, of sws_scale schedule frame config grid]
  have zero: "\<exists>c. engine_process_frame_to_ascii sws_scale schedule ctx frame config grid
              = Frame_done c (worker_args (ascii_height ctx) (num_threads ctx)) grid"
    if "ascii_width ctx = 0 \<or> ascii_height ctx = 0"
    using alloc_frame_buffers_zero [OF that] res by simp
  have launched: "a = worker_args (ascii_height ctx) (num_threads ctx)
          \<and> length a = nat (num_threads ctx) \<and> g = grid"
    if "engine_process_frame_to_ascii sws_scale schedule ctx frame config grid = Frame_done c' a g"
    for c' a g
    using that res by (auto simp: length_worker_args split: if_splits)
  show ?thesis using zero launched by blast
qed

text \<open>An instance: the half-split frame with an output height of 0.\<close>

theorem invalid_geometry_not_rejected_witness:
  "ascii_height zero_height_ctx = 0 \<and> 1 \<le> num_threads zero_height_ctx
   \<and> (\<exists>c. engine_process_frame_to_ascii (\<lambda>u::unit. split_data) [1, 0] zero_height_ctx () default_config
             blank_grid
           = Frame_done c [\<lparr>start_row = 0, end_row = 0\<rparr>, \<lparr>start_row = 0, end_row = 0\<rparr>] blank_grid)"
proof -
  have "ascii_width zero_height_ctx \<le> 0 \<or> ascii_height zero_height_ctx \<le> 0"
    "1 \<le> num_threads zero_height_ctx"
    by (simp_all add: zero_height_ctx_fields)
  from invalid_geometry_not_rejected [OF this, where sws_scale = "\<lambda>u::unit. split_data"
      and schedule = "[1, 0]" and frame = "()" and config = default_config
      and grid = blank_grid]
  show ?thesis
    by (simp add: zero_height_ctx_fields zero_height_args)
qed


section \<open>Console renderer: properties\<close>

lemma length_decimal: "n < 1000 \<Longrightarrow> length (decimal n) \<le> 3"
proof -
  assume n: "n < 1000"
  have one: "length (decimal k) = 1" if "k < 10" for k
    using that by (simp add: decimal.simps [of k])
  have two: "length (decimal k) \<le> 2" if "k < 100" for k
  proof (cases "k < 10")
    case True then show ?thesis using one by simp
  next
    case False
    have "k div 10 < 10" using that by simp
    then show ?thesis using False one [of "k div 10"] by (simp add: decimal.simps [of k])
  qed
  show ?thesis
  proof (cases "n < 10")
    case True then show ?thesis using one by simp
  next
    case False
    have "n div 10 < 100" using n by simp
    then show ?thesis using False two [of "n div 10"] by (simp add: decimal.simps [of n])
  qed
qed

lemma length_color_cell_text: "length (color_cell_text r g b c) \<le> 20"
proof -
  have byte: "unat v < 256" for v :: uint8_t
    using unsigned_less [of v] by simp
  have "unat r < 1000" "unat g < 1000" "unat b < 1000"
    using byte [of r] byte [of g] byte [of b] by simp_all
  then have "length (decimal (unat r)) \<le> 3" "length (decimal (unat g)) \<le> 3"
    "length (decimal (unat b)) \<le> 3"
    by (simp_all add: length_decimal)
  then show ?thesis by (simp add: color_cell_text_def)
qed

lemma render_cell_step:
  assumes "stores_upto p ws" and "render_cell config grid idx (p, ws) = (p', ws')"
  shows "p \<le> p' \<and> p' \<le> p + 20 \<and> stores_upto p' ws'"
proof (cases "use_color config \<noteq> 0")
  case False
  with assms(2) have "p' = p + 1" "ws' = ws @ [(p, chars grid idx)]"
    by (simp_all add: render_cell_def)
  with assms(1) show ?thesis by (fastforce simp: stores_upto_def)
next
  case True
  let ?s = "color_cell_text (colors grid (idx * 3 + 0)) (colors grid (idx * 3 + 1))
      (colors grid (idx * 3 + 2)) (chars grid idx)"
  have p': "p' = p + length ?s" and ws': "ws' = ws @ zip [p..<p + length ?s + 1] (?s @ [CHR 0x00])"
    using assms(2) True by (auto simp: render_cell_def sprintf_def Let_def)
  have "off \<le> p + length ?s" if "(off, c) \<in> set (zip [p..<p + length ?s + 1] (?s @ [CHR 0x00]))" for off c
    using set_zip_leftD [OF that] by auto
  then have "stores_upto p' ws'"
    using assms(1) unfolding stores_upto_def p' ws' by fastforce
  then show ?thesis using length_color_cell_text [of _ _ _ "chars grid idx"] by (simp add: p')
qed

lemma render_cells_fold:
  assumes "stores_upto p ws"
    and "fold (\<lambda>x. render_cell config grid (f x)) xs (p, ws) = (p', ws')"
  shows "p \<le> p' \<and> p' \<le> p + 20 * length xs \<and> stores_upto p' ws'"
  using assms
proof (induction xs arbitrary: p ws)
  case Nil
  then show ?case by simp
next
  case (Cons x xs)
  obtain p1 ws1 where st: "render_cell config grid (f x) (p, ws) = (p1, ws1)"
    by (cases "render_cell config grid (f x) (p, ws)")
  from render_cell_step [OF Cons.prems(1) st]
  have a: "p \<le> p1" "p1 \<le> p + 20" "stores_upto p1 ws1" by simp_all
  from Cons.prems(2) st have "fold (\<lambda>x. render_cell config grid (f x)) xs (p1, ws1) = (p', ws')"
    by simp
  from Cons.IH [OF a(3) this] a show ?case by simp
qed

lemma render_row_step:
  assumes "stores_upto p ws" and "render_row ctx config grid y (p, ws) = (p', ws')"
    and w: "0 \<le> ascii_width ctx"
  shows "p \<le> p' \<and> p' \<le> p + (20 * nat (ascii_width ctx) + 1) \<and> stores_upto p' ws'"
proof -
  obtain p1 ws1 where st:
    "fold (\<lambda>x. render_cell config grid (y * ascii_width ctx + x)) [0..ascii_width ctx - 1] (p, ws)
      = (p1, ws1)"
    by (cases "fold (\<lambda>x. render_cell config grid (y * ascii_width ctx + x)) [0..ascii_width ctx - 1] (p, ws)")
  from render_cells_fold [OF assms(1) st]
  have a: "p \<le> p1" "p1 \<le> p + 20 * nat (ascii_width ctx)" "stores_upto p1 ws1"
    using w by simp_all
  have "p' = p1 + 1" "ws' = ws1 @ [(p1, CHR 0x0A)]"
    using assms(2) st by (simp_all add: render_row_def)
  with a show ?thesis unfolding stores_upto_def by fastforce
qed

lemma render_rows_fold:
  assumes "stores_upto p ws"
    and "fold (render_row ctx config grid) ys (p, ws) = (p', ws')"
    and w: "0 \<le> ascii_width ctx"
  shows "p' \<le> p + (20 * nat (ascii_width ctx) + 1) * length ys \<and> stores_upto p' ws'"
  using assms(1,2)
proof (induction ys arbitrary: p ws)
  case Nil
  then show ?case by simp
next
  case (Cons y ys)
  obtain p1 ws1 where st: "render_row ctx config grid y (p, ws) = (p1, ws1)"
    by (cases "render_row ctx config grid y (p, ws)")
  from render_row_step [OF Cons.prems(1) st w]
  have a: "p1 \<le> p + (20 * nat (ascii_width ctx) + 1)" "stores_upto p1 ws1" by simp_all
  from Cons.prems(2) st have "fold (render_row ctx config grid) ys (p1, ws1) = (p', ws')"
    by simp
  from Cons.IH [OF a(2) this] a(1) show ?case by (simp add: algebra_simps)
qed

lemma render_rows_offsets:
  assumes w: "0 \<le> ascii_width ctx" and h: "0 \<le> ascii_height ctx"
    and s: "(off, c) \<in> set (render_rows ctx config grid)"
  shows "off \<le> (20 * nat (ascii_width ctx) + 1) * nat (ascii_height ctx)"
proof -
  obtain p ws where st: "fold (render_row ctx config grid) [0..ascii_height ctx - 1] (0, []) = (p, ws)"
    by (cases "fold (render_row ctx config grid) [0..ascii_height ctx - 1] (0, [])")
  have "stores_upto 0 []" by (simp add: stores_upto_def)
  from render_rows_fold [OF this st w]
  have a: "p \<le> (20 * nat (ascii_width ctx) + 1) * nat (ascii_height ctx)" "stores_upto p ws"
    using h by simp_all
  have "render_rows ctx config grid = ws @ [(p, CHR 0x00)]"
    using st by (simp add: render_rows_def)
  with s a show ?thesis unfolding stores_upto_def by fastforce
qed


lemma render_cell_advance: "fst (render_cell config grid idx (p, ws)) \<le> p + 20"
  using length_color_cell_text [of "colors grid (idx * 3 + 0)" "colors grid (idx * 3 + 1)"
      "colors grid (idx * 3 + 2)" "chars grid idx"]
  by (simp add: render_cell_def sprintf_def Let_def)

lemma full_buffer_size_value:
  assumes w: "0 < ascii_width ctx" and h: "0 < ascii_height ctx"
    and wi: "ascii_width ctx * 20 + 2 < 2 ^ 31" and hi: "ascii_height ctx < 2 ^ 31"
  shows "int (unat (full_buffer_size ctx)) = (ascii_width ctx * 20 + 2) * ascii_height ctx"
proof -
  define k where "k = (ascii_width ctx * 20 + 2) * ascii_height ctx"
  have k0: "0 \<le> k" using w h by (simp add: k_def)
  have "(ascii_width ctx * 20 + 2) * ascii_height ctx \<le> 2 ^ 31 * 2 ^ 31"
    using w h wi hi by (intro mult_mono) simp_all
  then have k1: "k < 2 ^ 64" by (simp add: k_def)
  have "full_buffer_size ctx = word_of_int k"
    by (simp add: full_buffer_size_def size_t_of_int_def k_def)
  then have "int (unat (full_buffer_size ctx)) = k mod 2 ^ 64"
    by (simp add: unat_eq_nat_uint uint_word_of_int take_bit_eq_mod)
  also have "\<dots> = k" using k0 k1 by simp
  finally show ?thesis by (simp add: k_def)
qed

text \<open>
  C10. For every grid with positive dimensions (whose size computation
  \<open>ascii_width * 20 + 2\<close> does not overflow \<open>int\<close>, as holds for every grid whose buffers
  fit the arena), with arbitrary characters and colours: the size requested for the
  output buffer is \<open>(ascii_width * 20 + 2) * ascii_height\<close> bytes; every byte that
  \<open>engine_render_to_console\<close> stores (the cell texts with the terminating NUL that each
  \<open>sprintf\<close> leaves, the newlines and the final NUL) lies at an offset below that
  size; and each cell advances the write pointer by at most 20 bytes.
\<close>

theorem console_render_within_buffer:
  assumes w: "0 < ascii_width ctx" and h: "0 < ascii_height ctx"
    and wi: "ascii_width ctx * 20 + 2 < 2 ^ 31" and hi: "ascii_height ctx < 2 ^ 31"
  shows "int (unat (full_buffer_size ctx)) = (ascii_width ctx * 20 + 2) * ascii_height ctx
    \<and> (\<forall>off c. (off, c) \<in> set (snd (engine_render_to_console ctx config grid)) \<longrightarrow>
          off < unat (full_buffer_size ctx))
    \<and> (\<forall>idx p ws. fst (render_cell config grid idx (p, ws)) \<le> p + 20)"
proof -
  note sz = full_buffer_size_value [OF assms]
  have below: "off < unat (full_buffer_size ctx)"
    if "(off, c) \<in> set (snd (engine_render_to_console ctx config grid))" for off c
  proof -
    from that have "(off, c) \<in> set (render_rows ctx config grid)"
      by (auto simp: engine_render_to_console_def split: prod.splits option.splits)
    from render_rows_offsets [OF _ _ this] w h
    have "off \<le> (20 * nat (ascii_width ctx) + 1) * nat (ascii_height ctx)" by simp
    also have "\<dots> < (20 * nat (ascii_width ctx) + 2) * nat (ascii_height ctx)"
      using h by simp
    also have "int \<dots> = (ascii_width ctx * 20 + 2) * ascii_height ctx"
      using w h by (simp add: algebra_simps)
    finally have "int off < int (unat (full_buffer_size ctx))" using sz by simp
    then show ?thesis by (simp only: of_nat_less_iff)
  qed
  show ?thesis using sz below render_cell_advance by blast
qed

text \<open>An instance: the 4 by 4 grid of the half-split frame, whose buffer has 328 bytes.\<close>

theorem console_render_within_buffer_witness:
  "0 < ascii_width split_ctx \<and> 0 < ascii_height split_ctx
   \<and> ascii_width split_ctx * 20 + 2 < 2 ^ 31 \<and> ascii_height split_ctx < 2 ^ 31
   \<and> int (unat (full_buffer_size split_ctx)) = 328
   \<and> fst (render_cell default_config blank_grid 0 (0, [])) \<le> 0 + 20"
proof -
  have "0 < ascii_width split_ctx" "0 < ascii_height split_ctx"
    "ascii_width split_ctx * 20 + 2 < 2 ^ 31" "ascii_height split_ctx < 2 ^ 31"
    by (simp_all add: split_ctx_fields)
  note bound = console_render_within_buffer [OF this, of default_config blank_grid]
  from bound have a: "int (unat (full_buffer_size split_ctx))
      = (ascii_width split_ctx * 20 + 2) * ascii_height split_ctx" by blast
  from bound have b: "fst (render_cell default_config blank_grid 0 (0, [])) \<le> 0 + 20" by blast
  show ?thesis using a b by (simp add: split_ctx_fields)
qed

end
